theory Spec2Isabelle
  imports Main "HOL-Library.Multiset"
begin

section \<open>Bulk identity verification: the handler \<open>handleConsultar\<close> of main.go\<close>

text \<open>
  The development follows \<open>handleConsultar\<close> stage by stage: the two text blocks are
  scanned into pending rows, every row is looked up by a goroutine of its own (a retry
  loop around \<open>client.Do\<close>, then the comparison of the names), and the finished rows
  travel over an unbuffered channel to the loop that writes them out.

  Strings are byte lists. The library functions the handler calls are modelled on their
  documented behaviour, for ASCII text: \<open>strings.TrimSpace\<close> and \<open>strings.EqualFold\<close>
  treat the six ASCII white-space bytes and the letters \<open>A\<close> to \<open>Z\<close>; a byte from
  \<open>0x80\<close> on is an ordinary byte that is equal to itself only. \<open>bufio.Scanner\<close> is
  modelled for lines below its token limit of 64 KiB.
\<close>

subsection \<open>Configuration\<close>

definition MaxWorkers :: nat where
  "MaxWorkers = 3"

definition MaxRetries :: nat where
  "MaxRetries = 3"

definition ApiBaseURL :: string where
  "ApiBaseURL = ''https://api.decolecta.com/v1/reniec/dni?numero=''"

subsection \<open>Data\<close>

record APIResponse =
  FirstName :: string
  FirstLastName :: string
  SecondLastName :: string
  Message :: string

record ComparisonRow =
  ID :: nat
  DNI :: string
  NombreInput :: string
  PaternoInput :: string
  MaternoInput :: string
  NombreAPI :: string
  PaternoAPI :: string
  MaternoAPI :: string
  MatchNombre :: bool
  MatchPaterno :: bool
  MatchMaterno :: bool
  HasError :: bool
  ErrorMessage :: string
  IsPending :: bool

text \<open>The zero value of \<open>APIResponse\<close>, as \<open>var apiData APIResponse\<close> declares it.\<close>

definition zeroAPIResponse :: APIResponse where
  "zeroAPIResponse = \<lparr>FirstName = [], FirstLastName = [], SecondLastName = [], Message = []\<rparr>"

subsection \<open>Strings\<close>

definition tab :: char where
  "tab = CHR 0x09"

definition nl :: char where
  "nl = CHR 0x0A"

definition cr :: char where
  "cr = CHR 0x0D"

text \<open>\<open>strings.TrimSpace\<close>: leading and trailing white space removed.\<close>

definition isSpace :: "char \<Rightarrow> bool" where
  "isSpace c = (c \<in> set [CHR 0x09, CHR 0x0A, CHR 0x0B, CHR 0x0C, CHR 0x0D, CHR 0x20])"

definition TrimSpace :: "string \<Rightarrow> string" where
  "TrimSpace s = rev (dropWhile isSpace (rev (dropWhile isSpace s)))"

text \<open>
  \<open>strings.Split(s, sep)\<close> for a separator of one byte: the pieces between the
  separators, always at least one piece.
\<close>

primrec Split :: "string \<Rightarrow> char \<Rightarrow> string list" where
  "Split [] sep = [[]]"
| "Split (c # cs) sep =
     (if c = sep then [] # Split cs sep
      else (case Split cs sep of
              [] \<Rightarrow> [[c]]
            | p # ps \<Rightarrow> (c # p) # ps))"

text \<open>
  \<open>strings.EqualFold\<close>, the loop over the bytes of both strings: equal bytes pass, and
  so does an upper-case letter against the same letter in lower case; the strings must
  end together.
\<close>

fun EqualFold :: "string \<Rightarrow> string \<Rightarrow> bool" where
  "EqualFold [] [] = True"
| "EqualFold (sr # s) (tr # t) =
     (if tr = sr then EqualFold s t
      else
        (let lo = (if (of_char tr :: nat) < of_char sr then tr else sr);
             hi = (if (of_char tr :: nat) < of_char sr then sr else tr)
         in if (65 :: nat) \<le> of_char lo \<and> (of_char lo :: nat) \<le> 90
               \<and> (of_char hi :: nat) = of_char lo + 32
            then EqualFold s t
            else False))"
| "EqualFold [] (tr # t) = False"
| "EqualFold (sr # s) [] = False"

text \<open>\<open>fmt.Sprintf("%d", n)\<close>: the decimal digits of an integer, with its sign.\<close>

definition digit :: "nat \<Rightarrow> char" where
  "digit d = ''0123456789'' ! (d mod 10)"

fun showNat :: "nat \<Rightarrow> string" where
  "showNat n = (if n < 10 then [digit n] else showNat (n div 10) @ [digit (n mod 10)])"

declare showNat.simps [simp del]

definition showInt :: "int \<Rightarrow> string" where
  "showInt i = (if i < 0 then CHR ''-'' # showNat (nat (- i)) else showNat (nat i))"

subsection \<open>The scanners\<close>

text \<open>
  \<open>bufio.Scanner\<close> with its default split function \<open>ScanLines\<close>: the text is cut at
  every newline, one trailing carriage return is dropped from each line, and what follows
  the last newline is a line of its own unless it is empty. The list holds the tokens
  that successive calls of \<open>Scan\<close> deliver; once it is used up \<open>Scan\<close> answers false.
\<close>

definition dropCR :: "string \<Rightarrow> string" where
  "dropCR data = (if data \<noteq> [] \<and> last data = cr then butlast data else data)"

definition ScanLines :: "string \<Rightarrow> string list" where
  "ScanLines s =
     (let segs = Split s nl
      in map dropCR (if last segs = [] then butlast segs else segs))"

subsection \<open>Step 2 of the handler: the pending rows\<close>

text \<open>
  The loop \<open>for scannerDNI.Scan()\<close>. Its arguments are what is left in the two scanners and
  \<open>idCounter\<close>; the result is what the loop appends to \<open>initialRows\<close>. A blank
  identifier line takes the \<open>continue\<close> before \<open>scannerNames.Scan()\<close> is reached.
\<close>

definition field :: "string list \<Rightarrow> nat \<Rightarrow> string" where
  "field parts k = (if length parts \<ge> k + 1 then TrimSpace (parts ! k) else [])"

definition newRow :: "nat \<Rightarrow> string \<Rightarrow> string \<Rightarrow> ComparisonRow" where
  "newRow idCounter dni lineaNombre =
     (let parts = Split lineaNombre tab
      in \<lparr>ID = idCounter, DNI = dni,
          NombreInput = field parts 0, PaternoInput = field parts 1,
          MaternoInput = field parts 2,
          NombreAPI = [], PaternoAPI = [], MaternoAPI = [],
          MatchNombre = False, MatchPaterno = False, MatchMaterno = False,
          HasError = False, ErrorMessage = [], IsPending = True\<rparr>)"

fun scanRows :: "string list \<Rightarrow> string list \<Rightarrow> nat \<Rightarrow> ComparisonRow list" where
  "scanRows [] names idCounter = []"
| "scanRows (l # dnis) names idCounter =
     (let dni = TrimSpace l
      in if dni = [] then scanRows dnis names idCounter
         else (case names of
                 [] \<Rightarrow> newRow idCounter dni [] # scanRows dnis [] (idCounter + 1)
               | lineaNombre # names' \<Rightarrow>
                   newRow idCounter dni lineaNombre # scanRows dnis names' (idCounter + 1)))"

definition initialRows :: "string \<Rightarrow> string \<Rightarrow> ComparisonRow list" where
  "initialRows rawDnis rawNombres = scanRows (ScanLines rawDnis) (ScanLines rawNombres) 0"

subsection \<open>The registry's answer\<close>

text \<open>
  A response is its status code and the bytes \<open>io.ReadAll\<close> read from its body. The
  bytes are kept as the JSON value they denote, \<open>None\<close> when they are not a JSON text:
  this is all \<open>json.Unmarshal\<close> looks at.
\<close>

datatype json =
    JNull
  | JBool bool
  | JNumber string
  | JString string
  | JArray "json list"
  | JObject "(string \<times> json) list"

record response =
  StatusCode :: int
  Body :: "json option"

text \<open>
  \<open>client.Do\<close> returns a response and no error, or an error; with the error there may or
  may not be a response (there is one when a redirect is refused).
\<close>

datatype do_result = Ok response | Err "response option"

subsection \<open>\<open>json.Unmarshal\<close> into \<open>APIResponse\<close>\<close>

text \<open>
  \<open>encoding/json\<close>, for a struct of four string fields: a text that is not JSON is a
  syntax error and nothing is decoded; \<open>null\<close> leaves the struct as it is; an object is
  read member by member, a key naming a field (exactly, or up to the case of its ASCII
  letters) stores a string value there, \<open>null\<close> stores nothing, a value of another kind is a
  type error and decoding goes on with the next member, other keys are skipped; any other
  top-level value is a type error. A type error is returned when decoding ends.
\<close>

datatype json_error = SyntaxError | UnmarshalTypeError

datatype api_field = F_first_name | F_first_last_name | F_second_last_name | F_message

definition fieldTags :: "(string \<times> api_field) list" where
  "fieldTags =
     [(''first_name'', F_first_name), (''first_last_name'', F_first_last_name),
      (''second_last_name'', F_second_last_name), (''message'', F_message)]"

definition findField :: "string \<Rightarrow> api_field option" where
  "findField key =
     (case filter (\<lambda>(name, f). name = key) fieldTags of
        (name, f) # _ \<Rightarrow> Some f
      | [] \<Rightarrow>
          (case filter (\<lambda>(name, f). EqualFold name key) fieldTags of
             (name, f) # _ \<Rightarrow> Some f
           | [] \<Rightarrow> None))"

fun setField :: "api_field \<Rightarrow> string \<Rightarrow> APIResponse \<Rightarrow> APIResponse" where
  "setField F_first_name s v = v\<lparr>FirstName := s\<rparr>"
| "setField F_first_last_name s v = v\<lparr>FirstLastName := s\<rparr>"
| "setField F_second_last_name s v = v\<lparr>SecondLastName := s\<rparr>"
| "setField F_message s v = v\<lparr>Message := s\<rparr>"

text \<open>One member of the object; the flag says that a type error has been saved.\<close>

definition decodeMember :: "string \<times> json \<Rightarrow> APIResponse \<times> bool \<Rightarrow> APIResponse \<times> bool" where
  "decodeMember kv acc =
     (case findField (fst kv) of
        None \<Rightarrow> acc
      | Some f \<Rightarrow>
          (case snd kv of
             JString s \<Rightarrow> (setField f s (fst acc), snd acc)
           | JNull \<Rightarrow> acc
           | _ \<Rightarrow> (fst acc, True)))"

fun decodeObject :: "(string \<times> json) list \<Rightarrow> APIResponse \<times> bool \<Rightarrow> APIResponse \<times> bool" where
  "decodeObject [] acc = acc"
| "decodeObject (kv # kvs) acc = decodeObject kvs (decodeMember kv acc)"

definition Unmarshal :: "json option \<Rightarrow> APIResponse \<Rightarrow> json_error + APIResponse" where
  "Unmarshal bodyBytes v =
     (case bodyBytes of
        None \<Rightarrow> Inl SyntaxError
      | Some JNull \<Rightarrow> Inr v
      | Some (JObject kvs) \<Rightarrow>
          (let res = decodeObject kvs (v, False)
           in if snd res then Inl UnmarshalTypeError else Inr (fst res))
      | Some _ \<Rightarrow> Inl UnmarshalTypeError)"

subsection \<open>\<open>http.NewRequest\<close>\<close>

text \<open>
  \<open>http.NewRequest\<close> parses its URL with \<open>net/url\<close> and returns no request when
  that fails. For the URLs of the handler, \<open>ApiBaseURL\<close> followed by an identifier, it
  fails in two cases: the part before the first \<open>#\<close> contains an ASCII control
  character (a byte below \<open>0x20\<close>, or \<open>0x7f\<close>), or the fragment after that \<open>#\<close>
  contains a \<open>%\<close> that is not followed by two hexadecimal digits. The request is
  kept as its URL.
\<close>

definition isCTLByte :: "char \<Rightarrow> bool" where
  "isCTLByte b = ((of_char b :: nat) < 32 \<or> (of_char b :: nat) = 127)"

definition ishex :: "char \<Rightarrow> bool" where
  "ishex c =
     ((48 \<le> (of_char c :: nat) \<and> (of_char c :: nat) \<le> 57)
      \<or> (97 \<le> (of_char c :: nat) \<and> (of_char c :: nat) \<le> 102)
      \<or> (65 \<le> (of_char c :: nat) \<and> (of_char c :: nat) \<le> 70))"

fun validEscapes :: "string \<Rightarrow> bool" where
  "validEscapes [] = True"
| "validEscapes (c # cs) =
     (if c = CHR ''%'' then
        (case cs of
           h1 # h2 # rest \<Rightarrow> ishex h1 \<and> ishex h2 \<and> validEscapes rest
         | _ \<Rightarrow> False)
      else validEscapes cs)"

definition NewRequest :: "string \<Rightarrow> string option" where
  "NewRequest url =
     (let u = takeWhile (\<lambda>c. c \<noteq> CHR ''#'') url;
          frag = drop 1 (dropWhile (\<lambda>c. c \<noteq> CHR ''#'') url)
      in if list_ex isCTLByte u \<or> \<not> validEscapes frag then None else Some url)"

subsection \<open>The retry loop\<close>

text \<open>
  The variables of the goroutine that the loop assigns: \<open>resp\<close>, \<open>err\<close> (whether it is
  non-nil) and \<open>success\<close>. The log records, in order, every call of \<open>client.Do\<close> with
  its attempt number and every \<open>time.Sleep\<close> with its seconds. \<open>crashed\<close> says that
  the goroutine has panicked: the error of \<open>http.NewRequest\<close> is dropped, and
  \<open>req.Header.Set\<close> dereferences the request.
\<close>

datatype action = Request nat | Sleep nat

record retry_state =
  resp :: "response option"
  err :: bool
  success :: bool
  log :: "action list"
  crashed :: bool

definition retryStart :: retry_state where
  "retryStart = \<lparr>resp = None, err = False, success = False, log = [], crashed = False\<rparr>"

text \<open>
  \<open>for attempt := 0; attempt < MaxRetries; attempt++\<close>, with the bound as a parameter.
  The registry is the function \<open>client\<close>: what \<open>client.Do\<close> returns at each attempt.
\<close>

function retryLoop ::
  "nat \<Rightarrow> (nat \<Rightarrow> do_result) \<Rightarrow> string \<Rightarrow> nat \<Rightarrow> retry_state \<Rightarrow> retry_state" where
  "retryLoop maxRetries client dni attempt st =
     (if attempt < maxRetries then
        (case NewRequest (ApiBaseURL @ dni) of
           None \<Rightarrow> st\<lparr>crashed := True\<rparr>
         | Some req \<Rightarrow>
             (case client attempt of
                Ok rsp \<Rightarrow>
                  (if StatusCode rsp = 429
                   then retryLoop maxRetries client dni (attempt + 1)
                          (st\<lparr>resp := Some rsp, err := False,
                              log := log st @ [Request attempt, Sleep (2 + attempt)]\<rparr>)
                   else st\<lparr>resp := Some rsp, err := False, success := True,
                           log := log st @ [Request attempt]\<rparr>)
              | Err r \<Rightarrow>
                  retryLoop maxRetries client dni (attempt + 1)
                    (st\<lparr>resp := r, err := True,
                        log := log st @ [Request attempt, Sleep 1]\<rparr>)))
      else st)"
  by pat_completeness auto
termination
  by (relation "measure (\<lambda>(maxRetries, client, dni, attempt, st). maxRetries - attempt)") auto

declare retryLoop.simps [simp del]

subsection \<open>After the loop: the row's outcome\<close>

text \<open>
  The rest of the goroutine up to the send. \<open>None\<close> stands for a panic: the one of
  the loop, or the nil dereference of \<open>resp.StatusCode\<close> that a successful loop without
  a response would be.
\<close>

definition httpTag :: "int \<Rightarrow> string" where
  "httpTag code = ''HTTP '' @ showInt code"

definition compareNames :: "APIResponse \<Rightarrow> ComparisonRow \<Rightarrow> ComparisonRow" where
  "compareNames apiData r =
     (let r1 = r\<lparr>NombreAPI := FirstName apiData\<rparr>;
          r2 = r1\<lparr>PaternoAPI := FirstLastName apiData\<rparr>;
          r3 = r2\<lparr>MaternoAPI := SecondLastName apiData\<rparr>;
          r4 = r3\<lparr>MatchNombre := EqualFold (NombreInput r3) (NombreAPI r3)\<rparr>;
          r5 = r4\<lparr>MatchPaterno := EqualFold (PaternoInput r4) (PaternoAPI r4)\<rparr>
      in r5\<lparr>MatchMaterno := EqualFold (MaternoInput r5) (MaternoAPI r5)\<rparr>)"

definition finishRow :: "retry_state \<Rightarrow> ComparisonRow \<Rightarrow> ComparisonRow option" where
  "finishRow st r0 =
     (let r = r0\<lparr>IsPending := False\<rparr>
      in if crashed st then None
         else if \<not> success st \<or> err st then
           (let r1 = r\<lparr>HasError := True, ErrorMessage := ''Error Red''\<rparr>
            in if \<not> err st \<and> resp st \<noteq> None
               then Some (r1\<lparr>ErrorMessage := httpTag (StatusCode (the (resp st)))\<rparr>)
               else Some r1)
         else
           (case resp st of
              None \<Rightarrow> None
            | Some rsp \<Rightarrow>
                (if StatusCode rsp = 200 then
                   (case Unmarshal (Body rsp) zeroAPIResponse of
                      Inr apiData \<Rightarrow> Some (compareNames apiData r)
                    | Inl e \<Rightarrow> Some (r\<lparr>HasError := True, ErrorMessage := ''JSON Error''\<rparr>))
                 else Some (r\<lparr>HasError := True, ErrorMessage := httpTag (StatusCode rsp)\<rparr>))))"

definition processRow :: "nat \<Rightarrow> (nat \<Rightarrow> do_result) \<Rightarrow> ComparisonRow \<Rightarrow> ComparisonRow option" where
  "processRow maxRetries client r =
     finishRow (retryLoop maxRetries client (DNI r) 0 retryStart) r"

subsection \<open>Step 4 of the handler: the goroutines\<close>

text \<open>
  The producer goroutine, the goroutine of each row and the loop that receives from
  \<open>resultsChan\<close> share the wait group, the semaphore channel and the result channel,
  and nothing else; each operation on these is one event, and a run of the handler is a
  sequence of events. An event that its goroutine is not ready for, or that blocks, is
  not enabled (\<open>None\<close>).

  The producer is at the head of its \<open>range\<close> loop with the rows still to launch
  (with none left it is at \<open>wg.Wait()\<close>), or between \<open>wg.Add(1)\<close> and the \<open>go\<close>
  statement (asleep for \<open>RequestDelay\<close>), or at \<open>close(resultsChan)\<close>, or it has
  returned.
\<close>

datatype producer =
    Ranging "ComparisonRow list"
  | Launching ComparisonRow "ComparisonRow list"
  | Closing
  | Returned

text \<open>
  A row's goroutine is named by the statement it executes next: the send to \<open>sem\<close>,
  the lookup (it holds its permit), the send on \<open>resultsChan\<close>, its deferred
  \<open><-sem\<close>, its deferred \<open>wg.Done()\<close>; or it has ended. A goroutine that panics
  runs its deferred calls like one that returns; \<open>panicking\<close> tells the two apart.
  Once a panicking goroutine has run its last deferred call the runtime ends the
  program; until it has, the producer and the other goroutines go on.
\<close>

datatype pc = Spawned | Holding | Sending | Releasing | Finishing | Ended

record task =
  trow :: ComparisonRow
  tpc :: pc
  panicking :: bool

record system =
  producer :: producer
  tasks :: "task list"
  sem :: nat
  wg :: nat
  closed :: bool
  delivered :: "ComparisonRow list"
  exited :: bool

datatype event =
    Add
  | Go
  | Wait
  | Close
  | Acquire nat
  | Lookup nat "nat \<Rightarrow> do_result"
  | Send nat
  | Release nat
  | Done nat
  | Exit nat

definition initSystem :: "ComparisonRow list \<Rightarrow> system" where
  "initSystem rows =
     \<lparr>producer = Ranging rows, tasks = [], sem = 0, wg = 0, closed = False,
      delivered = [], exited = False\<rparr>"

definition atPc :: "system \<Rightarrow> nat \<Rightarrow> pc \<Rightarrow> bool" where
  "atPc s i p = (i < length (tasks s) \<and> tpc (tasks s ! i) = p)"

definition setPc :: "system \<Rightarrow> nat \<Rightarrow> pc \<Rightarrow> task list" where
  "setPc s i p = (tasks s)[i := (tasks s ! i)\<lparr>tpc := p\<rparr>]"

text \<open>The goroutine panics: its deferred calls are what it executes next.\<close>

definition panicAt :: "system \<Rightarrow> nat \<Rightarrow> pc \<Rightarrow> task list" where
  "panicAt s i p = (tasks s)[i := (tasks s ! i)\<lparr>tpc := p, panicking := True\<rparr>]"

text \<open>
  The events. \<open>W\<close> is the capacity of \<open>sem\<close> and \<open>maxRetries\<close> the bound of the retry
  loop. A send on \<open>resultsChan\<close>, which has no buffer, is the hand-over to the receiving
  loop, so the row joins \<open>delivered\<close> in the same event. The panics are those of Go:
  the nil dereference in the lookup, a send on a closed channel, a negative wait-group
  counter. \<open>Exit\<close> is the end of the program after a panic; nothing runs after it.
\<close>

fun step :: "nat \<Rightarrow> nat \<Rightarrow> event \<Rightarrow> system \<Rightarrow> system option" where
  "step W maxRetries Add s =
     (case producer s of
        Ranging (row # rest) \<Rightarrow>
          (if exited s then None
           else Some (s\<lparr>producer := Launching row rest, wg := wg s + 1\<rparr>))
      | _ \<Rightarrow> None)"
| "step W maxRetries Go s =
     (case producer s of
        Launching row rest \<Rightarrow>
          (if exited s then None
           else Some (s\<lparr>producer := Ranging rest,
                        tasks := tasks s @ [\<lparr>trow = row, tpc = Spawned, panicking = False\<rparr>]\<rparr>))
      | _ \<Rightarrow> None)"
| "step W maxRetries Wait s =
     (case producer s of
        Ranging [] \<Rightarrow>
          (if exited s \<or> wg s \<noteq> 0 then None else Some (s\<lparr>producer := Closing\<rparr>))
      | _ \<Rightarrow> None)"
| "step W maxRetries Close s =
     (case producer s of
        Closing \<Rightarrow>
          (if exited s then None else Some (s\<lparr>producer := Returned, closed := True\<rparr>))
      | _ \<Rightarrow> None)"
| "step W maxRetries (Acquire i) s =
     (if exited s \<or> \<not> atPc s i Spawned \<or> \<not> sem s < W then None
      else Some (s\<lparr>tasks := setPc s i Holding, sem := sem s + 1\<rparr>))"
| "step W maxRetries (Lookup i client) s =
     (if exited s \<or> \<not> atPc s i Holding then None
      else (case processRow maxRetries client (trow (tasks s ! i)) of
              None \<Rightarrow> Some (s\<lparr>tasks := panicAt s i Releasing\<rparr>)
            | Some r \<Rightarrow>
                Some (s\<lparr>tasks := (tasks s)[i := (tasks s ! i)\<lparr>trow := r, tpc := Sending\<rparr>]\<rparr>)))"
| "step W maxRetries (Send i) s =
     (if exited s \<or> \<not> atPc s i Sending then None
      else if closed s then Some (s\<lparr>tasks := panicAt s i Releasing\<rparr>)
      else Some (s\<lparr>tasks := setPc s i Releasing,
                   delivered := delivered s @ [trow (tasks s ! i)]\<rparr>))"
| "step W maxRetries (Release i) s =
     (if exited s \<or> \<not> atPc s i Releasing \<or> sem s = 0 then None
      else Some (s\<lparr>tasks := setPc s i Finishing, sem := sem s - 1\<rparr>))"
| "step W maxRetries (Done i) s =
     (if exited s \<or> \<not> atPc s i Finishing then None
      else if wg s = 0 then Some (s\<lparr>tasks := panicAt s i Ended\<rparr>)
      else Some (s\<lparr>tasks := setPc s i Ended, wg := wg s - 1\<rparr>))"
| "step W maxRetries (Exit i) s =
     (if exited s \<or> \<not> atPc s i Ended \<or> \<not> panicking (tasks s ! i) then None
      else Some (s\<lparr>exited := True\<rparr>))"

fun run :: "nat \<Rightarrow> nat \<Rightarrow> event list \<Rightarrow> system \<Rightarrow> system option" where
  "run W maxRetries [] s = Some s"
| "run W maxRetries (e # es) s =
     (case step W maxRetries e s of
        None \<Rightarrow> None
      | Some s' \<Rightarrow> run W maxRetries es s')"

text \<open>
  The handler on its two form values: the states its goroutines can reach with the
  constants of main.go.
\<close>

definition handleConsultar :: "string \<Rightarrow> string \<Rightarrow> event list \<Rightarrow> system option" where
  "handleConsultar rawDnis rawNombres es =
     run MaxWorkers MaxRetries es (initSystem (initialRows rawDnis rawNombres))"

section \<open>Notions the properties are stated with\<close>

subsection \<open>Status of a row\<close>

text \<open>
  The three states of a record, read off the two flags of the row: pending while
  \<open>IsPending\<close> is set, afterwards failed or resolved as \<open>HasError\<close> says.
\<close>

datatype status = Pending | Resolved | Failed

definition statusOf :: "ComparisonRow \<Rightarrow> status" where
  "statusOf r = (if IsPending r then Pending else if HasError r then Failed else Resolved)"

definition unsetAPI :: "ComparisonRow \<Rightarrow> bool" where
  "unsetAPI r =
     (NombreAPI r = [] \<and> PaternoAPI r = [] \<and> MaternoAPI r = [] \<and>
      \<not> MatchNombre r \<and> \<not> MatchPaterno r \<and> \<not> MatchMaterno r)"

definition statusShape :: "ComparisonRow \<Rightarrow> bool" where
  "statusShape r =
     ((ErrorMessage r \<noteq> [] \<longleftrightarrow> statusOf r = Failed) \<and>
      (statusOf r \<noteq> Resolved \<longrightarrow> unsetAPI r))"

text \<open>A row as the scanning loop builds it.\<close>

definition fresh :: "ComparisonRow \<Rightarrow> bool" where
  "fresh r = (IsPending r \<and> \<not> HasError r \<and> ErrorMessage r = [] \<and> unsetAPI r)"

subsection \<open>The text the library functions are modelled for\<close>

text \<open>
  \<open>strings.TrimSpace\<close>, \<open>strings.EqualFold\<close> and the matching of member names by
  \<open>encoding/json\<close> work on Unicode text (white space such as U+00A0, accented letters,
  the long s U+017F that matches \<open>s\<close>); the definitions above follow them on ASCII
  text, where a character is one byte below \<open>0x80\<close>. \<open>bufio.Scanner\<close> stops for good at
  a line that does not fit, with its line ending, into a buffer of \<open>MaxScanTokenSize\<close>
  bytes; \<open>ScanLines\<close> above follows it on text all of whose lines fit. The properties
  that depend on what these functions compute are stated for such text.
\<close>

definition asciiText :: "string \<Rightarrow> bool" where
  "asciiText s = list_all (\<lambda>c. (of_char c :: nat) < 128) s"



text \<open>The member names of a body that is an object, and the strings its members hold.\<close>

definition asciiKeys :: "json option \<Rightarrow> bool" where
  "asciiKeys bodyBytes =
     (case bodyBytes of
        Some (JObject kvs) \<Rightarrow> list_all (\<lambda>kv. asciiText (fst kv)) kvs
      | _ \<Rightarrow> True)"



subsection \<open>Equality up to the case of letters\<close>



subsection \<open>Reading the log of the retry loop\<close>

fun elapsed :: "action list \<Rightarrow> nat" where
  "elapsed [] = 0"
| "elapsed (Sleep d # as) = d + elapsed as"
| "elapsed (Request k # as) = elapsed as"

fun requests :: "action list \<Rightarrow> nat" where
  "requests [] = 0"
| "requests (Sleep d # as) = requests as"
| "requests (Request k # as) = Suc (requests as)"

text \<open>
  An attempt is retried when it ends in a transport error or in a response with status
  429; \<open>delay\<close> is the pause the loop then takes, and \<open>backoffs client a n\<close> the log of
  \<open>n\<close> such attempts from attempt \<open>a\<close> on.
\<close>

definition requestable :: "string \<Rightarrow> bool" where
  "requestable dni = (NewRequest (ApiBaseURL @ dni) \<noteq> None)"

definition retryable :: "do_result \<Rightarrow> bool" where
  "retryable d = (case d of Ok rsp \<Rightarrow> StatusCode rsp = 429 | Err r \<Rightarrow> True)"

definition delay :: "(nat \<Rightarrow> do_result) \<Rightarrow> nat \<Rightarrow> nat" where
  "delay client k = (case client k of Ok rsp \<Rightarrow> 2 + k | Err r \<Rightarrow> 1)"

fun backoffs :: "(nat \<Rightarrow> do_result) \<Rightarrow> nat \<Rightarrow> nat \<Rightarrow> action list" where
  "backoffs client a 0 = []"
| "backoffs client a (Suc n) = Request a # Sleep (delay client a) # backoffs client (Suc a) n"

text \<open>
  The total the specification gives for a record that is rate-limited at every attempt:
  the sum of \<open>2 + k\<close> for \<open>k\<close> from 0 to \<open>MaxRetries - 2\<close>.
\<close>

definition claimedBackoff :: "nat \<Rightarrow> nat" where
  "claimedBackoff maxRetries = (\<Sum>k<maxRetries - 1. 2 + k)"

subsection \<open>Bodies that \<open>json.Unmarshal\<close> accepts\<close>

definition stringOrNull :: "json \<Rightarrow> bool" where
  "stringOrNull v = (case v of JString s \<Rightarrow> True | JNull \<Rightarrow> True | _ \<Rightarrow> False)"

definition decodable :: "json option \<Rightarrow> bool" where
  "decodable bodyBytes =
     (case bodyBytes of
        Some JNull \<Rightarrow> True
      | Some (JObject kvs) \<Rightarrow> list_all (\<lambda>kv. findField (fst kv) \<noteq> None \<longrightarrow> stringOrNull (snd kv)) kvs
      | _ \<Rightarrow> False)"

text \<open>No member of the object stores a string into field \<open>f\<close>.\<close>

definition absent :: "api_field \<Rightarrow> (string \<times> json) list \<Rightarrow> bool" where
  "absent f kvs = list_all (\<lambda>kv. findField (fst kv) = Some f \<longrightarrow> snd kv = JNull) kvs"

subsection \<open>Reading the two text blocks\<close>

text \<open>
  The identifiers that produce a row, in order, and the line of the name block at a
  position, empty beyond its end.
\<close>

definition identifiers :: "string list \<Rightarrow> string list" where
  "identifiers dnis = filter (\<lambda>dni. dni \<noteq> []) (map TrimSpace dnis)"

definition nameAt :: "string list \<Rightarrow> nat \<Rightarrow> string" where
  "nameAt names k = (if k < length names then names ! k else [])"

subsection \<open>Reading the state of the goroutines\<close>

definition holdsPermit :: "task \<Rightarrow> bool" where
  "holdsPermit t = (tpc t = Holding \<or> tpc t = Sending \<or> tpc t = Releasing)"

definition inFlight :: "system \<Rightarrow> nat" where
  "inFlight s = length (filter (\<lambda>t. tpc t = Holding) (tasks s))"

definition pastSend :: "pc \<Rightarrow> bool" where
  "pastSend p = (p = Releasing \<or> p = Finishing \<or> p = Ended)"

definition hasSent :: "task \<Rightarrow> bool" where
  "hasSent t = (pastSend (tpc t) \<and> \<not> panicking t)"

text \<open>The row of the goroutine is still as the scanning loop built it.\<close>

definition untouched :: "task \<Rightarrow> bool" where
  "untouched t = (tpc t = Spawned \<or> tpc t = Holding \<or> panicking t)"

fun unlaunched :: "producer \<Rightarrow> ComparisonRow list" where
  "unlaunched (Ranging rows) = rows"
| "unlaunched (Launching row rest) = row # rest"
| "unlaunched Closing = []"
| "unlaunched Returned = []"

fun launching :: "producer \<Rightarrow> nat" where
  "launching (Launching row rest) = 1"
| "launching p = 0"

fun pastWait :: "producer \<Rightarrow> bool" where
  "pastWait Closing = True"
| "pastWait Returned = True"
| "pastWait p = False"

text \<open>
  What holds of the shared state throughout a run. The permits: \<open>sem\<close> holds one
  element for each goroutine between its send to \<open>sem\<close> and its deferred receive, at
  most \<open>W\<close> of them.
\<close>

definition permitsInv :: "nat \<Rightarrow> system \<Rightarrow> bool" where
  "permitsInv W s = (sem s = length (filter holdsPermit (tasks s)) \<and> sem s \<le> W)"

text \<open>
  The barrier: the wait group counts the goroutines that have not run \<open>wg.Done()\<close>,
  and the one about to be launched; past \<open>wg.Wait()\<close> every goroutine has ended;
  the channel is closed once the producer has returned; a panicking goroutine is at its
  deferred calls or has ended.
\<close>

definition barrierInv :: "system \<Rightarrow> bool" where
  "barrierInv s =
     (wg s = length (filter (\<lambda>t. tpc t \<noteq> Ended) (tasks s)) + launching (producer s)
      \<and> (pastWait (producer s) \<longrightarrow> (\<forall>t \<in> set (tasks s). tpc t = Ended))
      \<and> (closed s \<longleftrightarrow> producer s = Returned)
      \<and> list_all (\<lambda>t. panicking t \<longrightarrow> pastSend (tpc t)) (tasks s))"

text \<open>
  The rows: those of the goroutines, in launch order, followed by those still to launch
  carry the \<open>ID\<close>s of \<open>initialRows\<close>; the rows delivered are those of the goroutines
  that have sent.
\<close>

definition rowsInv :: "ComparisonRow list \<Rightarrow> system \<Rightarrow> bool" where
  "rowsInv rows s =
     (map (\<lambda>t. ID (trow t)) (tasks s) @ map ID (unlaunched (producer s)) = map ID rows
      \<and> mset (delivered s) = mset (map trow (filter hasSent (tasks s))))"

text \<open>
  The shape: a row is as the scanning loop built it until its goroutine has done the
  lookup, and from then on it is not pending and has the shape of its status.
\<close>

definition settled :: "ComparisonRow \<Rightarrow> bool" where
  "settled r = (\<not> IsPending r \<and> statusShape r)"

definition taskShape :: "task \<Rightarrow> bool" where
  "taskShape t = (if untouched t then fresh (trow t) else settled (trow t))"

definition shapeInv :: "system \<Rightarrow> bool" where
  "shapeInv s =
     (list_all fresh (unlaunched (producer s))
      \<and> list_all taskShape (tasks s)
      \<and> list_all settled (delivered s))"

text \<open>
  The identifiers: those of the goroutines, in launch order, followed by those still to
  launch are the identifiers of \<open>initialRows\<close>; and a goroutine whose identifier no
  request can be built for has not got past its lookup without a panic.
\<close>

definition dnisInv :: "ComparisonRow list \<Rightarrow> system \<Rightarrow> bool" where
  "dnisInv rows s =
     (map (\<lambda>t. DNI (trow t)) (tasks s) @ map DNI (unlaunched (producer s)) = map DNI rows)"

definition beforeLookup :: "task \<Rightarrow> bool" where
  "beforeLookup t = (requestable (DNI (trow t)) \<or> untouched t)"

definition stuckInv :: "system \<Rightarrow> bool" where
  "stuckInv s = list_all beforeLookup (tasks s)"

text \<open>No goroutine has panicked and the program runs.\<close>

definition calmInv :: "system \<Rightarrow> bool" where
  "calmInv s = (\<not> exited s \<and> list_all (\<lambda>t. \<not> panicking t) (tasks s))"

text \<open>
  A bound on the events a run can still see: seven for a row not yet launched, two for
  the producer's \<open>Wait\<close> and \<open>close\<close>, one for the end of the program.
\<close>

fun pcLeft :: "pc \<Rightarrow> nat" where
  "pcLeft Spawned = 5"
| "pcLeft Holding = 4"
| "pcLeft Sending = 3"
| "pcLeft Releasing = 2"
| "pcLeft Finishing = 1"
| "pcLeft Ended = 0"

fun producerLeft :: "producer \<Rightarrow> nat" where
  "producerLeft (Ranging rows) = 7 * length rows + 2"
| "producerLeft (Launching row rest) = 7 * length rest + 8"
| "producerLeft Closing = 1"
| "producerLeft Returned = 0"

definition eventsLeft :: "system \<Rightarrow> nat" where
  "eventsLeft s =
     (if exited s then 0
      else 1 + producerLeft (producer s) + sum_list (map (\<lambda>t. pcLeft (tpc t)) (tasks s)))"

subsection \<open>Inputs of the examples\<close>

definition always429 :: "nat \<Rightarrow> do_result" where
  "always429 k = Ok \<lparr>StatusCode = 429, Body = None\<rparr>"

definition alwaysDown :: "nat \<Rightarrow> do_result" where
  "alwaysDown k = Err None"

definition answers :: "int \<Rightarrow> json option \<Rightarrow> nat \<Rightarrow> do_result" where
  "answers code bodyBytes k = Ok \<lparr>StatusCode = code, Body = bodyBytes\<rparr>"

definition juanPerez :: json where
  "juanPerez =
     JObject [(''first_name'', JString ''JUAN''), (''first_last_name'', JString ''PEREZ''),
              (''second_last_name'', JString ''LOPEZ'')]"

definition dnisGap :: string where
  "dnisGap = ''11111111'' @ [nl] @ [nl] @ ''22222222''"

definition namesGap :: string where
  "namesGap = ''Ana'' @ [nl] @ ''Beatriz'' @ [nl] @ ''Carla''"

text \<open>
  A run on the two rows of \<open>dnisGap\<close>: both goroutines hold a permit at once, the
  second row is answered first, the first row gets status 404.
\<close>

definition scheduleGap :: "event list" where
  "scheduleGap =
     [Add, Go, Add, Acquire 0, Go, Acquire 1,
      Lookup 1 (answers 200 (Some juanPerez)), Send 1,
      Lookup 0 (answers 404 None), Release 1, Done 1,
      Send 0, Release 0, Done 0, Wait, Close]"

text \<open>
  A batch of two identifiers, the second with a tab inside, and two runs of it. In the
  first the goroutine of the second row panics in its lookup while the first row's
  lookup is in flight, runs its deferred calls, and the program ends. In the second the
  first row has been delivered and its goroutine has ended when the second goroutine
  panics; its deferred \<open>wg.Done()\<close> wakes the producer, which closes the channel
  before the program has ended.
\<close>

definition dnisTab :: string where
  "dnisTab = ''11111111'' @ [nl] @ ''12'' @ [tab] @ ''34''"

definition scheduleCrash :: "event list" where
  "scheduleCrash =
     [Add, Go, Add, Go, Acquire 0, Acquire 1,
      Lookup 1 (answers 200 (Some juanPerez)), Release 1, Done 1, Exit 1]"

definition scheduleCloseOverPanic :: "event list" where
  "scheduleCloseOverPanic =
     [Add, Go, Add, Go, Acquire 0, Acquire 1,
      Lookup 0 (answers 200 (Some juanPerez)), Send 0, Release 0, Done 0,
      Lookup 1 (answers 200 (Some juanPerez)), Release 1, Done 1,
      Wait, Close]"

definition rowJuan :: ComparisonRow where
  "rowJuan = newRow 0 ''12345678'' (''Juan'' @ [tab] @ ''Perez'' @ [tab] @ ''Lopez'')"

section \<open>The retry loop\<close>

lemma retryLoop_done: "\<not> attempt < m \<Longrightarrow> retryLoop m client dni attempt st = st"
  by (simp add: retryLoop.simps)

lemma retryLoop_crash:
  "\<not> requestable dni \<Longrightarrow> attempt < m \<Longrightarrow>
   retryLoop m client dni attempt st = st\<lparr>crashed := True\<rparr>"
  by (subst retryLoop.simps) (simp add: requestable_def)

lemma retryLoop_final:
  "requestable dni \<Longrightarrow> attempt < m \<Longrightarrow> client attempt = Ok rsp \<Longrightarrow>
   StatusCode rsp \<noteq> 429 \<Longrightarrow>
   retryLoop m client dni attempt st =
     st\<lparr>resp := Some rsp, err := False, success := True, log := log st @ [Request attempt]\<rparr>"
  by (subst retryLoop.simps) (auto simp: requestable_def)

lemma retryLoop_429:
  "requestable dni \<Longrightarrow> attempt < m \<Longrightarrow> client attempt = Ok rsp \<Longrightarrow>
   StatusCode rsp = 429 \<Longrightarrow>
   retryLoop m client dni attempt st =
     retryLoop m client dni (attempt + 1)
       (st\<lparr>resp := Some rsp, err := False,
           log := log st @ [Request attempt, Sleep (2 + attempt)]\<rparr>)"
  by (subst retryLoop.simps) (auto simp: requestable_def)

lemma retryLoop_err:
  "requestable dni \<Longrightarrow> attempt < m \<Longrightarrow> client attempt = Err r \<Longrightarrow>
   retryLoop m client dni attempt st =
     retryLoop m client dni (attempt + 1)
       (st\<lparr>resp := r, err := True, log := log st @ [Request attempt, Sleep 1]\<rparr>)"
  by (subst retryLoop.simps) (auto simp: requestable_def)

lemma retryLoop_retryable:
  assumes "requestable dni" and "attempt < m" and "retryable (client attempt)"
  shows "\<exists>r e. retryLoop m client dni attempt st =
     retryLoop m client dni (Suc attempt)
       (st\<lparr>resp := r, err := e,
           log := log st @ [Request attempt, Sleep (delay client attempt)]\<rparr>)
     \<and> (e \<longleftrightarrow> (\<exists>x. client attempt = Err x))
     \<and> (\<forall>rsp. client attempt = Ok rsp \<longrightarrow> r = Some rsp)"
proof (cases "client attempt")
  case (Ok rsp)
  then have code: "StatusCode rsp = 429" using assms(3) by (simp add: retryable_def)
  have "retryLoop m client dni attempt st =
      retryLoop m client dni (attempt + 1)
        (st\<lparr>resp := Some rsp, err := False,
            log := log st @ [Request attempt, Sleep (2 + attempt)]\<rparr>)"
    using assms(1,2) Ok code by (rule retryLoop_429)
  then show ?thesis
    using Ok by (intro exI [of _ "Some rsp"] exI [of _ False]) (simp add: delay_def)
next
  case (Err x)
  have "retryLoop m client dni attempt st =
      retryLoop m client dni (attempt + 1)
        (st\<lparr>resp := x, err := True, log := log st @ [Request attempt, Sleep 1]\<rparr>)"
    using assms(1,2) Err by (rule retryLoop_err)
  then show ?thesis
    using Err by (intro exI [of _ x] exI [of _ True]) (simp add: delay_def)
qed

text \<open>\<open>n\<close> retried attempts in a row.\<close>

lemma retryLoop_prefix:
  "requestable dni \<or> n = 0 \<Longrightarrow> attempt + n \<le> m \<Longrightarrow>
   \<forall>j. attempt \<le> j \<and> j < attempt + n \<longrightarrow> retryable (client j) \<Longrightarrow>
   \<exists>st'. retryLoop m client dni attempt st = retryLoop m client dni (attempt + n) st'
     \<and> log st' = log st @ backoffs client attempt n
     \<and> success st' = success st \<and> crashed st' = crashed st
     \<and> (n = 0 \<longrightarrow> st' = st)
     \<and> (0 < n \<longrightarrow> (err st' \<longleftrightarrow> (\<exists>x. client (attempt + n - 1) = Err x))
                 \<and> (\<forall>rsp. client (attempt + n - 1) = Ok rsp \<longrightarrow> resp st' = Some rsp))"
proof (induction n arbitrary: attempt st)
  case 0
  then show ?case by simp
next
  case (Suc n)
  have ok: "requestable dni" using Suc.prems(1) by simp
  have lt: "attempt < m" using Suc.prems by simp
  have r0: "retryable (client attempt)" using Suc.prems by simp
  obtain r e where step:
    "retryLoop m client dni attempt st =
       retryLoop m client dni (Suc attempt)
         (st\<lparr>resp := r, err := e,
             log := log st @ [Request attempt, Sleep (delay client attempt)]\<rparr>)"
    and e: "e \<longleftrightarrow> (\<exists>x. client attempt = Err x)"
    and r: "\<forall>rsp. client attempt = Ok rsp \<longrightarrow> r = Some rsp"
    using retryLoop_retryable [where client = client and attempt = attempt and st = st] ok lt r0
    by blast
  let ?st1 = "st\<lparr>resp := r, err := e,
             log := log st @ [Request attempt, Sleep (delay client attempt)]\<rparr>"
  have ok': "requestable dni \<or> n = 0" using ok by simp
  have le: "Suc attempt + n \<le> m" using Suc.prems by simp
  have rest: "\<forall>j. Suc attempt \<le> j \<and> j < Suc attempt + n \<longrightarrow> retryable (client j)"
    using Suc.prems by simp
  obtain st' where st':
    "retryLoop m client dni (Suc attempt) ?st1 = retryLoop m client dni (Suc attempt + n) st'"
    "log st' = log ?st1 @ backoffs client (Suc attempt) n"
    "success st' = success ?st1 \<and> crashed st' = crashed ?st1"
    "n = 0 \<longrightarrow> st' = ?st1"
    "0 < n \<longrightarrow> (err st' \<longleftrightarrow> (\<exists>x. client (Suc attempt + n - 1) = Err x))
                 \<and> (\<forall>rsp. client (Suc attempt + n - 1) = Ok rsp \<longrightarrow> resp st' = Some rsp)"
    using Suc.IH [OF ok' le rest, of ?st1] by blast
  have last: "(err st' \<longleftrightarrow> (\<exists>x. client (attempt + Suc n - 1) = Err x))
                 \<and> (\<forall>rsp. client (attempt + Suc n - 1) = Ok rsp \<longrightarrow> resp st' = Some rsp)"
  proof (cases n)
    case 0
    then show ?thesis using st'(4) e r by simp
  next
    case (Suc k)
    then show ?thesis using st'(5) by simp
  qed
  show ?case
    using step st'(1,2,3) last by (intro exI [of _ st']) simp
qed

lemma elapsed_append: "elapsed (xs @ ys) = elapsed xs + elapsed ys"
  by (induction xs rule: elapsed.induct) auto

lemma requests_append: "requests (xs @ ys) = requests xs + requests ys"
  by (induction xs rule: requests.induct) auto

lemma requests_backoffs: "requests (backoffs client a n) = n"
  by (induction n arbitrary: a) auto

lemma elapsed_backoffs: "elapsed (backoffs client a n) = (\<Sum>k = a..<a + n. delay client k)"
proof (induction n arbitrary: a)
  case 0
  then show ?case by simp
next
  case (Suc n)
  have "(\<Sum>k = a..<a + Suc n. delay client k)
      = delay client a + (\<Sum>k = Suc a..<Suc a + n. delay client k)"
    by (simp add: sum.atLeast_Suc_lessThan)
  then show ?case using Suc.IH [of "Suc a"] by simp
qed

text \<open>The loop when every attempt is retried.\<close>

lemma retryLoop_exhausted:
  assumes "requestable dni \<or> m = 0" and "\<forall>j<m. retryable (client j)"
  shows "log (retryLoop m client dni 0 retryStart) = backoffs client 0 m"
    and "\<not> success (retryLoop m client dni 0 retryStart)"
    and "\<not> crashed (retryLoop m client dni 0 retryStart)"
    and "0 < m \<Longrightarrow> err (retryLoop m client dni 0 retryStart) \<longleftrightarrow> (\<exists>x. client (m - 1) = Err x)"
    and "0 < m \<Longrightarrow> client (m - 1) = Ok rsp \<Longrightarrow>
         resp (retryLoop m client dni 0 retryStart) = Some rsp"
    and "m = 0 \<Longrightarrow> retryLoop m client dni 0 retryStart = retryStart"
proof -
  have ret: "\<forall>j. 0 \<le> j \<and> j < 0 + m \<longrightarrow> retryable (client j)" using assms(2) by simp
  obtain st' where st':
    "retryLoop m client dni 0 retryStart = retryLoop m client dni (0 + m) st'"
    "log st' = log retryStart @ backoffs client 0 m"
    "success st' = success retryStart \<and> crashed st' = crashed retryStart"
    "m = 0 \<longrightarrow> st' = retryStart"
    "0 < m \<longrightarrow> (err st' \<longleftrightarrow> (\<exists>x. client (0 + m - 1) = Err x))
                 \<and> (\<forall>rsp. client (0 + m - 1) = Ok rsp \<longrightarrow> resp st' = Some rsp)"
    using retryLoop_prefix [OF assms(1) _ ret, of m retryStart] by auto
  have eq: "retryLoop m client dni 0 retryStart = st'"
    using st'(1) by (simp add: retryLoop_done)
  show "log (retryLoop m client dni 0 retryStart) = backoffs client 0 m"
    using eq st'(2) by (simp add: retryStart_def)
  show "\<not> success (retryLoop m client dni 0 retryStart)"
    using eq st'(3) by (simp add: retryStart_def)
  show "\<not> crashed (retryLoop m client dni 0 retryStart)"
    using eq st'(3) by (simp add: retryStart_def)
  show "0 < m \<Longrightarrow> err (retryLoop m client dni 0 retryStart) \<longleftrightarrow> (\<exists>x. client (m - 1) = Err x)"
    using eq st'(5) by simp
  show "0 < m \<Longrightarrow> client (m - 1) = Ok rsp \<Longrightarrow>
      resp (retryLoop m client dni 0 retryStart) = Some rsp"
    using eq st'(5) by simp
  show "m = 0 \<Longrightarrow> retryLoop m client dni 0 retryStart = retryStart"
    using eq st'(4) by simp
qed

text \<open>The loop when attempt \<open>k\<close> is the first that is not retried.\<close>

lemma retryLoop_answered:
  assumes "requestable dni" and "k < m" and "client k = Ok rsp" and "StatusCode rsp \<noteq> 429"
    and "\<forall>j<k. retryable (client j)"
  shows "log (retryLoop m client dni 0 retryStart) = backoffs client 0 k @ [Request k]"
    and "success (retryLoop m client dni 0 retryStart)"
    and "\<not> err (retryLoop m client dni 0 retryStart)"
    and "resp (retryLoop m client dni 0 retryStart) = Some rsp"
    and "\<not> crashed (retryLoop m client dni 0 retryStart)"
proof -
  have ok: "requestable dni \<or> k = 0" using assms(1) by simp
  have le: "0 + k \<le> m" using assms(2) by simp
  have ret: "\<forall>j. 0 \<le> j \<and> j < 0 + k \<longrightarrow> retryable (client j)" using assms(5) by simp
  obtain st' where st':
    "retryLoop m client dni 0 retryStart = retryLoop m client dni (0 + k) st'"
    "log st' = log retryStart @ backoffs client 0 k"
    "crashed st' = crashed retryStart"
    using retryLoop_prefix [OF ok le ret, of retryStart] by auto
  have eq: "retryLoop m client dni 0 retryStart =
      st'\<lparr>resp := Some rsp, err := False, success := True, log := log st' @ [Request k]\<rparr>"
    using st'(1) retryLoop_final [where client = client and attempt = k and rsp = rsp and st = st']
      assms(1,2,3,4)
    by simp
  show "log (retryLoop m client dni 0 retryStart) = backoffs client 0 k @ [Request k]"
    using eq st'(2) by (simp add: retryStart_def)
  show "success (retryLoop m client dni 0 retryStart)" using eq by simp
  show "\<not> err (retryLoop m client dni 0 retryStart)" using eq by simp
  show "resp (retryLoop m client dni 0 retryStart) = Some rsp" using eq by simp
  show "\<not> crashed (retryLoop m client dni 0 retryStart)"
    using eq st'(3) by (simp add: retryStart_def)
qed

text \<open>Every registry is of one of the two kinds.\<close>

lemma retryLoop_cases:
  fixes client :: "nat \<Rightarrow> do_result"
  shows "(\<forall>j<m. retryable (client j)) \<or>
   (\<exists>k rsp. k < m \<and> client k = Ok rsp \<and> StatusCode rsp \<noteq> 429 \<and> (\<forall>j<k. retryable (client j)))"
proof (cases "\<forall>j<m. retryable (client j)")
  case True
  then show ?thesis by simp
next
  case False
  define k where "k = (LEAST j. j < m \<and> \<not> retryable (client j))"
  have ex: "\<exists>j. j < m \<and> \<not> retryable (client j)" using False by blast
  have k: "k < m \<and> \<not> retryable (client k)"
    unfolding k_def
    using LeastI_ex [of "\<lambda>j. j < m \<and> \<not> retryable (client j)"] ex by simp
  have least: "\<forall>j<k. retryable (client j)"
  proof (intro allI impI)
    fix j assume "j < k"
    then have "\<not> (j < m \<and> \<not> retryable (client j))"
      unfolding k_def
      using not_less_Least [of j "\<lambda>j. j < m \<and> \<not> retryable (client j)"] by simp
    then show "retryable (client j)" using \<open>j < k\<close> k by simp
  qed
  obtain rsp where "client k = Ok rsp" "StatusCode rsp \<noteq> 429"
    using k by (cases "client k") (auto simp: retryable_def)
  then show ?thesis using k least by blast
qed

subsection \<open>The outcome of a row\<close>

lemma processRow_crash:
  assumes "\<not> requestable (DNI r)" and "0 < m"
  shows "processRow m client r = None"
  using retryLoop_crash [OF assms, of client retryStart]
  by (simp add: processRow_def finishRow_def)

lemma processRow_exhausted:
  assumes "requestable (DNI r) \<or> m = 0" and "\<forall>j<m. retryable (client j)"
  shows "\<exists>tag. processRow m client r =
           Some (r\<lparr>IsPending := False, HasError := True, ErrorMessage := tag\<rparr>)
         \<and> (tag = ''Error Red'' \<or> tag = httpTag 429)
         \<and> ((0 < m \<and> (\<exists>rsp. client (m - 1) = Ok rsp)) \<longleftrightarrow> tag = httpTag 429)"
proof (cases "0 < m \<and> (\<exists>rsp. client (m - 1) = Ok rsp)")
  case True
  then obtain rsp where rsp: "client (m - 1) = Ok rsp" and m: "0 < m" by blast
  have code: "StatusCode rsp = 429"
    using assms(2) m rsp by (auto simp: retryable_def dest!: spec [of _ "m - 1"])
  have "\<not> err (retryLoop m client (DNI r) 0 retryStart)"
    using retryLoop_exhausted(4) [OF assms m] rsp by simp
  moreover have "resp (retryLoop m client (DNI r) 0 retryStart) = Some rsp"
    using retryLoop_exhausted(5) [OF assms m rsp] .
  moreover have "\<not> success (retryLoop m client (DNI r) 0 retryStart)"
    using retryLoop_exhausted(2) [OF assms] .
  moreover have "\<not> crashed (retryLoop m client (DNI r) 0 retryStart)"
    using retryLoop_exhausted(3) [OF assms] .
  ultimately have "processRow m client r =
      Some (r\<lparr>IsPending := False, HasError := True, ErrorMessage := httpTag 429\<rparr>)"
    using code by (simp add: processRow_def finishRow_def)
  then show ?thesis using True by (intro exI [of _ "httpTag 429"]) simp
next
  case False
  have nosucc: "\<not> success (retryLoop m client (DNI r) 0 retryStart)"
    using retryLoop_exhausted(2) [OF assms] .
  have nocrash: "\<not> crashed (retryLoop m client (DNI r) 0 retryStart)"
    using retryLoop_exhausted(3) [OF assms] .
  have "err (retryLoop m client (DNI r) 0 retryStart)
      \<or> resp (retryLoop m client (DNI r) 0 retryStart) = None"
  proof (cases "0 < m")
    case True
    then have "\<exists>x. client (m - 1) = Err x"
      using False by (cases "client (m - 1)") auto
    then show ?thesis using retryLoop_exhausted(4) [OF assms True] by simp
  next
    case False
    then show ?thesis using retryLoop_exhausted(6) [OF assms] by (simp add: retryStart_def)
  qed
  then have "processRow m client r =
      Some (r\<lparr>IsPending := False, HasError := True, ErrorMessage := ''Error Red''\<rparr>)"
    using nosucc nocrash by (auto simp: processRow_def finishRow_def)
  moreover have "''Error Red'' \<noteq> httpTag 429" by (simp add: httpTag_def)
  ultimately show ?thesis using False by (intro exI [of _ "''Error Red''"]) auto
qed

lemma processRow_answered:
  assumes "requestable (DNI r)" and "k < m" and "client k = Ok rsp"
    and "StatusCode rsp \<noteq> 429" and "\<forall>j<k. retryable (client j)"
  shows "processRow m client r =
     (if StatusCode rsp = 200 then
        (case Unmarshal (Body rsp) zeroAPIResponse of
           Inr apiData \<Rightarrow> Some (compareNames apiData (r\<lparr>IsPending := False\<rparr>))
         | Inl e \<Rightarrow> Some (r\<lparr>IsPending := False, HasError := True, ErrorMessage := ''JSON Error''\<rparr>))
      else Some (r\<lparr>IsPending := False, HasError := True,
                   ErrorMessage := httpTag (StatusCode rsp)\<rparr>))"
  using retryLoop_answered(2,3,4,5) [OF assms]
  by (simp add: processRow_def finishRow_def split: sum.splits)

text \<open>The goroutine panics exactly when it has a request to build and cannot.\<close>

lemma processRow_None_iff:
  "processRow m client r = None \<longleftrightarrow> \<not> requestable (DNI r) \<and> 0 < m"
proof (cases "requestable (DNI r) \<or> m = 0")
  case False
  then show ?thesis using processRow_crash [of r m client] by simp
next
  case True
  consider (a) "\<forall>j<m. retryable (client j)"
    | (b) k rsp where "k < m" "client k = Ok rsp" "StatusCode rsp \<noteq> 429"
        "\<forall>j<k. retryable (client j)"
    using retryLoop_cases [of m client] by blast
  then have "processRow m client r \<noteq> None"
  proof cases
    case a
    then show ?thesis using processRow_exhausted [OF True a] by auto
  next
    case b
    then have "requestable (DNI r)" using True by auto
    then show ?thesis
      using processRow_answered [OF _ b, of r] by (simp split: sum.splits)
  qed
  then show ?thesis using True by auto
qed

lemma processRow_total: "requestable (DNI r) \<Longrightarrow> \<exists>r'. processRow m client r = Some r'"
  using processRow_None_iff [of m client r] by auto

subsection \<open>The shape of the log\<close>

lemma length_backoffs: "length (backoffs client a n) = 2 * n"
  by (induction n arbitrary: a) auto

lemma backoffs_nth:
  "j < n \<Longrightarrow> backoffs client a n ! (2 * j) = Request (a + j)
     \<and> backoffs client a n ! Suc (2 * j) = Sleep (delay client (a + j))"
proof (induction n arbitrary: a j)
  case 0
  then show ?case by simp
next
  case (Suc n)
  show ?case
  proof (cases j)
    case 0
    then show ?thesis by simp
  next
    case (Suc j')
    then have "j' < n" using Suc.prems by simp
    from Suc.IH [OF this, of "Suc a"] show ?thesis using Suc by simp
  qed
qed

lemma backoffs_Request:
  assumes "i < length (backoffs client a n)" and "backoffs client a n ! i = Request k"
  shows "a \<le> k \<and> k < a + n \<and> i = 2 * (k - a)"
proof -
  have i: "i < 2 * n" using assms(1) by (simp add: length_backoffs)
  show ?thesis
  proof (cases "even i")
    case True
    then obtain j where j: "i = 2 * j" by (auto elim: evenE)
    then have jn: "j < n" using i by simp
    from backoffs_nth [OF this, of client a] have "a + j = k" using assms(2) j by simp
    then show ?thesis using jn j by auto
  next
    case False
    then obtain j where j: "i = Suc (2 * j)" by (auto elim: oddE)
    then have "j < n" using i by simp
    from backoffs_nth [OF this, of client a] show ?thesis using assms(2) j by simp
  qed
qed

lemma log_sleep_after_failure:
  assumes lg: "lg = backoffs client 0 n \<or> (lg = backoffs client 0 n @ [Request n] \<and> client n = Ok rsp)"
    and i: "i < length lg" and req: "lg ! i = Request k" and fail: "client k = Err x"
  shows "Suc i < length lg \<and> lg ! Suc i = Sleep 1"
proof -
  have inb: "i < length (backoffs client 0 n)"
  proof (rule ccontr)
    assume "\<not> i < length (backoffs client 0 n)"
    then have "lg = backoffs client 0 n @ [Request n]" "client n = Ok rsp"
      "i = length (backoffs client 0 n)"
      using lg i by auto
    then have "k = n" using req by simp
    then show False using fail \<open>client n = Ok rsp\<close> by simp
  qed
  have nth: "lg ! i = backoffs client 0 n ! i"
    using lg inb by (auto simp: nth_append)
  have k: "k < n \<and> i = 2 * k"
    using backoffs_Request [OF inb, of k] req nth by simp
  then have sl: "backoffs client 0 n ! Suc i = Sleep 1"
    using backoffs_nth [of k n client 0] fail by (simp add: delay_def)
  have inb': "Suc i < length (backoffs client 0 n)"
    using k by (simp add: length_backoffs)
  then have "lg ! Suc i = backoffs client 0 n ! Suc i"
    using lg by (auto simp: nth_append)
  then show ?thesis using sl inb' lg by auto
qed

lemma retryLoop_log:
  fixes client :: "nat \<Rightarrow> do_result"
  shows "\<exists>n\<le>m. log (retryLoop m client dni 0 retryStart) = backoffs client 0 n
            \<or> (\<exists>rsp. n < m \<and> client n = Ok rsp
                  \<and> log (retryLoop m client dni 0 retryStart) = backoffs client 0 n @ [Request n])"
proof (cases "requestable dni \<or> m = 0")
  case False
  then have "retryLoop m client dni 0 retryStart = retryStart\<lparr>crashed := True\<rparr>"
    using retryLoop_crash [of dni 0 m client retryStart] by simp
  then have "log (retryLoop m client dni 0 retryStart) = backoffs client 0 0"
    by (simp add: retryStart_def)
  then show ?thesis by (intro exI [of _ 0]) simp
next
  case True
  consider (a) "\<forall>j<m. retryable (client j)"
    | (b) k rsp where "k < m" "client k = Ok rsp" "StatusCode rsp \<noteq> 429"
        "\<forall>j<k. retryable (client j)"
    using retryLoop_cases [of m client] by blast
  then show ?thesis
  proof cases
    case a
    then show ?thesis using retryLoop_exhausted(1) [OF True a] by (intro exI [of _ m]) simp
  next
    case b
    then have "requestable dni" using True by auto
    then show ?thesis using retryLoop_answered(1) [OF _ b] b by (intro exI [of _ k]) auto
  qed
qed

lemma requests_le:
  fixes client :: "nat \<Rightarrow> do_result"
  shows "requests (log (retryLoop m client dni 0 retryStart)) \<le> m"
proof -
  obtain n where "n \<le> m" and
    "log (retryLoop m client dni 0 retryStart) = backoffs client 0 n
       \<or> (\<exists>rsp. n < m \<and> client n = Ok rsp
             \<and> log (retryLoop m client dni 0 retryStart) = backoffs client 0 n @ [Request n])"
    using retryLoop_log [of m client dni] by blast
  then show ?thesis
    by (auto simp: requests_append requests_backoffs)
qed

lemma statusOf_failed:
  "statusOf (r\<lparr>IsPending := False, HasError := True, ErrorMessage := tag\<rparr>) = Failed"
  by (simp add: statusOf_def)

lemma rowJuan_requestable: "requestable (DNI rowJuan)"
  by code_simp

lemma rowJuan_DNI: "DNI rowJuan = ''12345678''"
  by code_simp

section \<open>The claims on the retry loop\<close>

text \<open>
  C2, as the code has it. A record whose every attempt is answered with status 429 ends
  failed with the tag \<open>HTTP 429\<close> after \<open>MaxRetries\<close> requests; the loop sleeps after each
  of them, the last included, so the pauses add up to the sum of \<open>2 + k\<close> for \<open>k\<close> from 0
  to \<open>MaxRetries - 1\<close>. The identifier is one a request can be built for.
\<close>

theorem rate_limited_every_attempt:
  assumes "requestable (DNI r)" and "0 < m"
    and "\<forall>k<m. \<exists>rsp. client k = Ok rsp \<and> StatusCode rsp = 429"
  shows "\<exists>r'. processRow m client r = Some r' \<and> statusOf r' = Failed
           \<and> ErrorMessage r' = ''HTTP 429''
           \<and> requests (log (retryLoop m client (DNI r) 0 retryStart)) = m
           \<and> elapsed (log (retryLoop m client (DNI r) 0 retryStart)) = (\<Sum>k<m. 2 + k)"
proof -
  have ok: "requestable (DNI r) \<or> m = 0" using assms(1) by simp
  have ret: "\<forall>j<m. retryable (client j)"
    using assms(3) by (auto simp: retryable_def)
  have lastOk: "\<exists>rsp. client (m - 1) = Ok rsp"
    using assms(2,3) by (auto dest!: spec [of _ "m - 1"])
  obtain tag where tag:
    "processRow m client r = Some (r\<lparr>IsPending := False, HasError := True, ErrorMessage := tag\<rparr>)"
    "(0 < m \<and> (\<exists>rsp. client (m - 1) = Ok rsp)) \<longleftrightarrow> tag = httpTag 429"
    using processRow_exhausted [OF ok ret] by blast
  have tag429: "tag = ''HTTP 429''"
  proof -
    have "tag = httpTag 429" using tag(2) assms(2) lastOk by simp
    also have "httpTag 429 = ''HTTP 429''" by code_simp
    finally show ?thesis .
  qed
  have lg: "log (retryLoop m client (DNI r) 0 retryStart) = backoffs client 0 m"
    using retryLoop_exhausted(1) [OF ok ret] .
  have d: "\<forall>k<m. delay client k = 2 + k"
    using assms(3) by (auto simp: delay_def)
  have "elapsed (backoffs client 0 m) = (\<Sum>k = 0..<0 + m. delay client k)"
    by (rule elapsed_backoffs)
  also have "\<dots> = (\<Sum>k = 0..<m. 2 + k)"
    using d by (intro sum.cong) auto
  also have "\<dots> = (\<Sum>k<m. 2 + k)"
    by (simp add: atLeast0LessThan)
  finally have el: "elapsed (backoffs client 0 m) = (\<Sum>k<m. 2 + k)" .
  show ?thesis
    using tag(1) tag429 lg el by (simp add: statusOf_failed requests_backoffs)
qed

theorem rate_limited_every_attempt_witness:
  "\<exists>r'. processRow MaxRetries always429 rowJuan = Some r' \<and> statusOf r' = Failed
         \<and> ErrorMessage r' = ''HTTP 429''
         \<and> requests (log (retryLoop MaxRetries always429 ''12345678'' 0 retryStart)) = MaxRetries
         \<and> elapsed (log (retryLoop MaxRetries always429 ''12345678'' 0 retryStart)) = 2 + 3 + 4"
proof -
  have m: "0 < MaxRetries" by (simp add: MaxRetries_def)
  have c: "\<forall>k<MaxRetries. \<exists>rsp. always429 k = Ok rsp \<and> StatusCode rsp = 429"
    by (simp add: always429_def)
  have s: "(\<Sum>k<MaxRetries. 2 + k) = 2 + 3 + 4"
    by (simp add: MaxRetries_def lessThan_Suc numeral_3_eq_3)
  show ?thesis
    using rate_limited_every_attempt [OF rowJuan_requestable m c] s by (simp add: rowJuan_DNI)
qed

text \<open>
  C2 as the specification words it fails: with \<open>MaxRetries = 3\<close> and status 429 at every
  attempt the loop sleeps 2, 3 and 4 seconds, 9 in all, where the specification's sum
  stops at 2 + 3 = 5.
\<close>

theorem rate_limited_backoff_counterexample:
  "log (retryLoop MaxRetries always429 ''12345678'' 0 retryStart)
     = [Request 0, Sleep 2, Request 1, Sleep 3, Request 2, Sleep 4]
   \<and> elapsed (log (retryLoop MaxRetries always429 ''12345678'' 0 retryStart)) = 9
   \<and> claimedBackoff MaxRetries = 5
   \<and> elapsed (log (retryLoop MaxRetries always429 ''12345678'' 0 retryStart))
       \<noteq> claimedBackoff MaxRetries"
proof -
  have lg: "log (retryLoop MaxRetries always429 ''12345678'' 0 retryStart)
      = [Request 0, Sleep 2, Request 1, Sleep 3, Request 2, Sleep 4]"
    by code_simp
  have cl: "claimedBackoff MaxRetries = 5"
    by (simp add: claimedBackoff_def MaxRetries_def lessThan_Suc numeral_2_eq_2)
  show ?thesis using lg cl by simp
qed



text \<open>
  C6. The loop never issues more than \<open>MaxRetries\<close> requests; a request that ends in a
  transport error is followed in the log by a sleep of one second; and when every attempt
  ends in a transport error the row is failed with the tag \<open>Error Red\<close> after
  \<open>MaxRetries\<close> requests and as many seconds of sleep.
\<close>

theorem transport_failures:
  fixes client :: "nat \<Rightarrow> do_result"
  shows "requests (log (retryLoop m client (DNI r) 0 retryStart)) \<le> m
    \<and> (\<forall>i k. i < length (log (retryLoop m client (DNI r) 0 retryStart))
           \<and> log (retryLoop m client (DNI r) 0 retryStart) ! i = Request k
           \<and> (\<exists>x. client k = Err x)
         \<longrightarrow> Suc i < length (log (retryLoop m client (DNI r) 0 retryStart))
           \<and> log (retryLoop m client (DNI r) 0 retryStart) ! Suc i = Sleep 1)
    \<and> (requestable (DNI r) \<and> (\<forall>k<m. \<exists>x. client k = Err x)
         \<longrightarrow> (\<exists>r'. processRow m client r = Some r' \<and> statusOf r' = Failed
                \<and> ErrorMessage r' = ''Error Red''
                \<and> requests (log (retryLoop m client (DNI r) 0 retryStart)) = m
                \<and> elapsed (log (retryLoop m client (DNI r) 0 retryStart)) = m))"
proof (intro conjI allI impI)
  show "requests (log (retryLoop m client (DNI r) 0 retryStart)) \<le> m"
    by (rule requests_le)
next
  fix i k
  let ?lg = "log (retryLoop m client (DNI r) 0 retryStart)"
  assume a: "i < length ?lg \<and> ?lg ! i = Request k \<and> (\<exists>x. client k = Err x)"
  then obtain x where x: "client k = Err x" by blast
  obtain n where n:
    "?lg = backoffs client 0 n
       \<or> (\<exists>rsp. n < m \<and> client n = Ok rsp \<and> ?lg = backoffs client 0 n @ [Request n])"
    using retryLoop_log [of m client "DNI r"] by blast
  then consider
      (a) "?lg = backoffs client 0 n"
    | (b) rsp where "client n = Ok rsp" "?lg = backoffs client 0 n @ [Request n]"
    by blast
  then have "Suc i < length ?lg \<and> ?lg ! Suc i = Sleep 1"
  proof cases
    case a
    then show ?thesis
      using log_sleep_after_failure [of ?lg client n undefined i k x]
        \<open>i < length ?lg \<and> ?lg ! i = Request k \<and> (\<exists>x. client k = Err x)\<close> x
      by simp
  next
    case b
    then show ?thesis
      using log_sleep_after_failure [of ?lg client n rsp i k x]
        \<open>i < length ?lg \<and> ?lg ! i = Request k \<and> (\<exists>x. client k = Err x)\<close> x
      by simp
  qed
  then show "Suc i < length ?lg" and "?lg ! Suc i = Sleep 1"
    by simp_all
next
  assume h: "requestable (DNI r) \<and> (\<forall>k<m. \<exists>x. client k = Err x)"
  then have down: "\<forall>k<m. \<exists>x. client k = Err x" and ok: "requestable (DNI r) \<or> m = 0"
    by simp_all
  have ret: "\<forall>j<m. retryable (client j)"
    using down by (auto simp: retryable_def)
  have noOk: "\<not> (0 < m \<and> (\<exists>rsp. client (m - 1) = Ok rsp))"
    using down by (auto dest!: spec [of _ "m - 1"])
  obtain tag where tag:
    "processRow m client r = Some (r\<lparr>IsPending := False, HasError := True, ErrorMessage := tag\<rparr>)"
    "tag = ''Error Red'' \<or> tag = httpTag 429"
    "(0 < m \<and> (\<exists>rsp. client (m - 1) = Ok rsp)) \<longleftrightarrow> tag = httpTag 429"
    using processRow_exhausted [OF ok ret] by blast
  have red: "tag = ''Error Red''" using tag(2,3) noOk by blast
  have lg: "log (retryLoop m client (DNI r) 0 retryStart) = backoffs client 0 m"
    using retryLoop_exhausted(1) [OF ok ret] .
  have d: "\<forall>k<m. delay client k = 1"
    using down by (auto simp: delay_def)
  have "elapsed (backoffs client 0 m) = (\<Sum>k = 0..<0 + m. delay client k)"
    by (rule elapsed_backoffs)
  also have "\<dots> = (\<Sum>k = 0..<m. 1)"
    using d by (intro sum.cong) auto
  finally have el: "elapsed (backoffs client 0 m) = m" by simp
  show "\<exists>r'. processRow m client r = Some r' \<and> statusOf r' = Failed
                \<and> ErrorMessage r' = ''Error Red''
                \<and> requests (log (retryLoop m client (DNI r) 0 retryStart)) = m
                \<and> elapsed (log (retryLoop m client (DNI r) 0 retryStart)) = m"
    using tag(1) red lg el by (simp add: statusOf_failed requests_backoffs)
qed

theorem transport_failures_witness:
  "requests (log (retryLoop MaxRetries alwaysDown ''12345678'' 0 retryStart)) \<le> MaxRetries
   \<and> log (retryLoop MaxRetries alwaysDown ''12345678'' 0 retryStart) ! 0 = Request 0
   \<and> log (retryLoop MaxRetries alwaysDown ''12345678'' 0 retryStart) ! Suc 0 = Sleep 1
   \<and> (\<exists>r'. processRow MaxRetries alwaysDown rowJuan = Some r' \<and> statusOf r' = Failed
          \<and> ErrorMessage r' = ''Error Red''
          \<and> requests (log (retryLoop MaxRetries alwaysDown ''12345678'' 0 retryStart)) = MaxRetries
          \<and> elapsed (log (retryLoop MaxRetries alwaysDown ''12345678'' 0 retryStart)) = MaxRetries)"
proof -
  have lg: "log (retryLoop MaxRetries alwaysDown ''12345678'' 0 retryStart)
      = [Request 0, Sleep 1, Request 1, Sleep 1, Request 2, Sleep 1]"
    by code_simp
  have down: "\<forall>k<MaxRetries. \<exists>x. alwaysDown k = Err x"
    by (simp add: alwaysDown_def)
  show ?thesis
    using transport_failures [of MaxRetries alwaysDown rowJuan] down lg rowJuan_requestable
    by (simp add: rowJuan_DNI)
qed

section \<open>Comparing names and decoding the body\<close>




lemma EqualFold_empty: "EqualFold s [] \<longleftrightarrow> s = []"
  by (cases s) simp_all

lemma decodeObject_flag:
  "snd (decodeObject kvs acc) \<longleftrightarrow>
     snd acc \<or> \<not> list_all (\<lambda>kv. findField (fst kv) \<noteq> None \<longrightarrow> stringOrNull (snd kv)) kvs"
proof (induction kvs arbitrary: acc)
  case Nil
  then show ?case by simp
next
  case (Cons kv kvs)
  have "snd (decodeMember kv acc) \<longleftrightarrow>
      snd acc \<or> \<not> (findField (fst kv) \<noteq> None \<longrightarrow> stringOrNull (snd kv))"
    by (auto simp: decodeMember_def stringOrNull_def split: option.splits json.splits)
  then show ?case using Cons.IH [of "decodeMember kv acc"] by auto
qed

lemma Unmarshal_decodable:
  "(\<exists>apiData. Unmarshal bodyBytes v = Inr apiData) \<longleftrightarrow> decodable bodyBytes"
  by (auto simp: Unmarshal_def decodable_def decodeObject_flag Let_def
      split: option.splits json.splits)

lemma Unmarshal_null: "Unmarshal (Some JNull) v = Inr v"
  by (simp add: Unmarshal_def)

lemma Unmarshal_object:
  "Unmarshal (Some (JObject kvs)) v = Inr apiData \<Longrightarrow> apiData = fst (decodeObject kvs (v, False))"
  by (auto simp: Unmarshal_def Let_def split: if_splits)

lemma decodeMember_FirstName:
  "(findField (fst kv) = Some F_first_name \<longrightarrow> snd kv = JNull) \<Longrightarrow>
   FirstName (fst (decodeMember kv acc)) = FirstName (fst acc)"
  by (cases "findField (fst kv)"; cases "snd kv"; cases "the (findField (fst kv))")
     (auto simp: decodeMember_def)

lemma decodeMember_FirstLastName:
  "(findField (fst kv) = Some F_first_last_name \<longrightarrow> snd kv = JNull) \<Longrightarrow>
   FirstLastName (fst (decodeMember kv acc)) = FirstLastName (fst acc)"
  by (cases "findField (fst kv)"; cases "snd kv"; cases "the (findField (fst kv))")
     (auto simp: decodeMember_def)

lemma decodeMember_SecondLastName:
  "(findField (fst kv) = Some F_second_last_name \<longrightarrow> snd kv = JNull) \<Longrightarrow>
   SecondLastName (fst (decodeMember kv acc)) = SecondLastName (fst acc)"
  by (cases "findField (fst kv)"; cases "snd kv"; cases "the (findField (fst kv))")
     (auto simp: decodeMember_def)

lemma absent_FirstName:
  "absent F_first_name kvs \<Longrightarrow> FirstName (fst (decodeObject kvs acc)) = FirstName (fst acc)"
  by (induction kvs arbitrary: acc) (simp_all add: absent_def decodeMember_FirstName)

lemma absent_FirstLastName:
  "absent F_first_last_name kvs \<Longrightarrow>
   FirstLastName (fst (decodeObject kvs acc)) = FirstLastName (fst acc)"
  by (induction kvs arbitrary: acc) (simp_all add: absent_def decodeMember_FirstLastName)

lemma absent_SecondLastName:
  "absent F_second_last_name kvs \<Longrightarrow>
   SecondLastName (fst (decodeObject kvs acc)) = SecondLastName (fst acc)"
  by (induction kvs arbitrary: acc) (simp_all add: absent_def decodeMember_SecondLastName)


lemma compareNames_fields:
  "NombreAPI (compareNames apiData r) = FirstName apiData"
  "PaternoAPI (compareNames apiData r) = FirstLastName apiData"
  "MaternoAPI (compareNames apiData r) = SecondLastName apiData"
  "MatchNombre (compareNames apiData r) = EqualFold (NombreInput r) (FirstName apiData)"
  "MatchPaterno (compareNames apiData r) = EqualFold (PaternoInput r) (FirstLastName apiData)"
  "MatchMaterno (compareNames apiData r) = EqualFold (MaternoInput r) (SecondLastName apiData)"
  by (simp_all add: compareNames_def Let_def)

lemma compareNames_kept:
  "ID (compareNames apiData r) = ID r"
  "DNI (compareNames apiData r) = DNI r"
  "NombreInput (compareNames apiData r) = NombreInput r"
  "PaternoInput (compareNames apiData r) = PaternoInput r"
  "MaternoInput (compareNames apiData r) = MaternoInput r"
  "HasError (compareNames apiData r) = HasError r"
  "ErrorMessage (compareNames apiData r) = ErrorMessage r"
  "IsPending (compareNames apiData r) = IsPending r"
  by (simp_all add: compareNames_def Let_def)

text \<open>The three ways a row can end, for every behaviour of the registry.\<close>

lemma processRow_outcome:
  assumes "processRow m client r = Some r'"
  shows "(\<exists>tag. r' = r\<lparr>IsPending := False, HasError := True, ErrorMessage := tag\<rparr> \<and> tag \<noteq> [])
     \<or> (\<exists>k rsp apiData. k < m \<and> client k = Ok rsp \<and> StatusCode rsp = 200
            \<and> Unmarshal (Body rsp) zeroAPIResponse = Inr apiData
            \<and> r' = compareNames apiData (r\<lparr>IsPending := False\<rparr>))"
proof -
  have ok: "requestable (DNI r) \<or> m = 0"
    using assms processRow_None_iff [of m client r] by auto
  consider (a) "\<forall>j<m. retryable (client j)"
    | (b) k rsp where "k < m" "client k = Ok rsp" "StatusCode rsp \<noteq> 429"
        "\<forall>j<k. retryable (client j)"
    using retryLoop_cases [of m client] by blast
  then show ?thesis
  proof cases
    case a
    obtain tag where
      "processRow m client r = Some (r\<lparr>IsPending := False, HasError := True, ErrorMessage := tag\<rparr>)"
      "tag = ''Error Red'' \<or> tag = httpTag 429"
      using processRow_exhausted [OF ok a] by blast
    then show ?thesis using assms by (auto simp: httpTag_def)
  next
    case b
    have req: "requestable (DNI r)" using ok b(1) by auto
    note ans = processRow_answered [OF req b]
    show ?thesis
    proof (cases "StatusCode rsp = 200")
      case False
      then have "r' = r\<lparr>IsPending := False, HasError := True,
          ErrorMessage := httpTag (StatusCode rsp)\<rparr>"
        using ans assms by simp
      then show ?thesis by (auto simp: httpTag_def)
    next
      case True
      show ?thesis
      proof (cases "Unmarshal (Body rsp) zeroAPIResponse")
        case (Inl e)
        then have "r' = r\<lparr>IsPending := False, HasError := True, ErrorMessage := ''JSON Error''\<rparr>"
          using ans assms True by simp
        then show ?thesis by auto
      next
        case (Inr apiData)
        then have "r' = compareNames apiData (r\<lparr>IsPending := False\<rparr>)"
          using ans assms True by simp
        then show ?thesis using b(1,2) True Inr by blast
      qed
    qed
  qed
qed

section \<open>The claims on the comparison\<close>




lemma rowJuan_no_error: "\<not> HasError rowJuan"
  by code_simp


text \<open>
  C10, as the code has it, for a body whose member names are ASCII. When the loop ends on
  a response with status 200, the row is resolved exactly when \<open>json.Unmarshal\<close> accepts the body for the struct: the body is
  \<open>null\<close>, or an object in which every member that names one of the four fields holds a
  string or \<open>null\<close>. Every other body (bytes that are not JSON, but also a JSON array,
  string, number or boolean, and an object with a number, boolean, array or object in a
  field) fails the row with the tag \<open>JSON Error\<close>. For an accepted body, a name that no
  member stores is the empty string, and its flag says whether the input name is empty.
\<close>

theorem status_200_resolved_iff_decodable:
  assumes "requestable (DNI r)" and "k < m" and "client k = Ok rsp" and "StatusCode rsp = 200"
    and "\<forall>j<k. retryable (client j)" and "\<not> HasError r"
    and "asciiKeys (Body rsp)"
  shows "\<exists>r'. processRow m client r = Some r'
    \<and> (statusOf r' = Resolved \<longleftrightarrow> decodable (Body rsp))
    \<and> (\<not> decodable (Body rsp) \<longrightarrow> statusOf r' = Failed \<and> ErrorMessage r' = ''JSON Error'')
    \<and> (decodable (Body rsp) \<longrightarrow>
         (Body rsp = Some JNull \<longrightarrow>
            NombreAPI r' = [] \<and> PaternoAPI r' = [] \<and> MaternoAPI r' = []) \<and>
         (\<forall>kvs. Body rsp = Some (JObject kvs) \<longrightarrow>
            (absent F_first_name kvs \<longrightarrow>
               NombreAPI r' = [] \<and> MatchNombre r' = (NombreInput r = [])) \<and>
            (absent F_first_last_name kvs \<longrightarrow>
               PaternoAPI r' = [] \<and> MatchPaterno r' = (PaternoInput r = [])) \<and>
            (absent F_second_last_name kvs \<longrightarrow>
               MaternoAPI r' = [] \<and> MatchMaterno r' = (MaternoInput r = []))))"
proof (cases "Unmarshal (Body rsp) zeroAPIResponse")
  case (Inl e)
  have nd: "\<not> decodable (Body rsp)"
    using Inl Unmarshal_decodable [of "Body rsp" zeroAPIResponse] by auto
  have "processRow m client r =
      Some (r\<lparr>IsPending := False, HasError := True, ErrorMessage := ''JSON Error''\<rparr>)"
    using processRow_answered [OF assms(1,2,3) _ assms(5)] assms(4) Inl by simp
  then show ?thesis using nd by (simp add: statusOf_def)
next
  case (Inr apiData)
  have d: "decodable (Body rsp)"
    using Inr Unmarshal_decodable [of "Body rsp" zeroAPIResponse] by auto
  have pr: "processRow m client r = Some (compareNames apiData (r\<lparr>IsPending := False\<rparr>))"
    using processRow_answered [OF assms(1,2,3) _ assms(5)] assms(4) Inr by simp
  let ?r' = "compareNames apiData (r\<lparr>IsPending := False\<rparr>)"
  have st: "statusOf ?r' = Resolved"
    using assms(6) by (simp add: statusOf_def compareNames_kept)
  have null: "Body rsp = Some JNull \<longrightarrow>
      NombreAPI ?r' = [] \<and> PaternoAPI ?r' = [] \<and> MaternoAPI ?r' = []"
    using Inr by (auto simp: Unmarshal_null compareNames_fields zeroAPIResponse_def)
  have obj: "\<forall>kvs. Body rsp = Some (JObject kvs) \<longrightarrow>
            (absent F_first_name kvs \<longrightarrow>
               NombreAPI ?r' = [] \<and> MatchNombre ?r' = (NombreInput r = [])) \<and>
            (absent F_first_last_name kvs \<longrightarrow>
               PaternoAPI ?r' = [] \<and> MatchPaterno ?r' = (PaternoInput r = [])) \<and>
            (absent F_second_last_name kvs \<longrightarrow>
               MaternoAPI ?r' = [] \<and> MatchMaterno ?r' = (MaternoInput r = []))"
  proof (intro allI impI)
    fix kvs
    assume b: "Body rsp = Some (JObject kvs)"
    then have api: "apiData = fst (decodeObject kvs (zeroAPIResponse, False))"
      using Inr Unmarshal_object by simp
    show "(absent F_first_name kvs \<longrightarrow>
               NombreAPI ?r' = [] \<and> MatchNombre ?r' = (NombreInput r = [])) \<and>
            (absent F_first_last_name kvs \<longrightarrow>
               PaternoAPI ?r' = [] \<and> MatchPaterno ?r' = (PaternoInput r = [])) \<and>
            (absent F_second_last_name kvs \<longrightarrow>
               MaternoAPI ?r' = [] \<and> MatchMaterno ?r' = (MaternoInput r = []))"
      using api absent_FirstName [of kvs "(zeroAPIResponse, False)"]
        absent_FirstLastName [of kvs "(zeroAPIResponse, False)"]
        absent_SecondLastName [of kvs "(zeroAPIResponse, False)"]
      by (simp add: compareNames_fields zeroAPIResponse_def EqualFold_empty)
  qed
  show ?thesis
    using pr st d null obj by simp
qed

theorem status_200_resolved_iff_decodable_witness:
  "\<exists>r'. processRow MaxRetries (answers 200 (Some (JObject [(''message'', JString ''ok'')]))) rowJuan
           = Some r'
     \<and> statusOf r' = Resolved
     \<and> NombreAPI r' = [] \<and> PaternoAPI r' = [] \<and> MaternoAPI r' = []
     \<and> MatchNombre r' = (NombreInput rowJuan = [])
     \<and> MatchPaterno r' = (PaternoInput rowJuan = [])
     \<and> MatchMaterno r' = (MaternoInput rowJuan = [])"
proof -
  let ?kvs = "[(''message'', JString ''ok'')]"
  let ?rsp = "\<lparr>StatusCode = 200, Body = Some (JObject ?kvs)\<rparr>"
  have m: "0 < MaxRetries" by (simp add: MaxRetries_def)
  have c: "answers 200 (Some (JObject ?kvs)) 0 = Ok ?rsp" by (simp add: answers_def)
  have s: "StatusCode ?rsp = 200" by simp
  have p: "\<forall>j<0::nat. retryable (answers 200 (Some (JObject ?kvs)) j)" by simp
  have d: "decodable (Body ?rsp)" by code_simp
  have a: "absent F_first_name ?kvs" "absent F_first_last_name ?kvs"
    "absent F_second_last_name ?kvs"
    by code_simp+
  have k: "asciiKeys (Body ?rsp)" by code_simp
  show ?thesis
    using status_200_resolved_iff_decodable [OF rowJuan_requestable m c s p rowJuan_no_error k]
      d a
    by auto
qed

text \<open>
  C10 as worded fails: the body \<open>[]\<close> is a JSON text, and so is an object whose
  \<open>first_name\<close> is the number 1; with status 200 both fail the row with \<open>JSON Error\<close>.
\<close>

theorem valid_json_not_always_resolved_counterexample:
  "processRow MaxRetries (answers 200 (Some (JArray []))) rowJuan =
     Some (rowJuan\<lparr>IsPending := False, HasError := True, ErrorMessage := ''JSON Error''\<rparr>)
   \<and> processRow MaxRetries
       (answers 200 (Some (JObject [(''first_name'', JNumber ''1'')]))) rowJuan =
     Some (rowJuan\<lparr>IsPending := False, HasError := True, ErrorMessage := ''JSON Error''\<rparr>)
   \<and> statusOf (rowJuan\<lparr>IsPending := False, HasError := True, ErrorMessage := ''JSON Error''\<rparr>)
       = Failed"
  by code_simp

section \<open>The claim on the scanning loop\<close>

lemma nameAt_Nil: "nameAt [] k = []"
  by (simp add: nameAt_def)

lemma nameAt_Cons: "nameAt (n # names) (Suc k) = nameAt names k"
  by (simp add: nameAt_def)

lemma nameAt_0: "nameAt (n # names) 0 = n"
  by (simp add: nameAt_def)

lemma map_upt_shift: "map f [0..<Suc n] = f 0 # map (\<lambda>k. f (Suc k)) [0..<n]"
  by (simp add: upt_conv_Cons map_Suc_upt [symmetric] del: upt_Suc)

lemma scanRows_rows:
  "scanRows dnis names idCounter =
     map (\<lambda>k. newRow (idCounter + k) (identifiers dnis ! k) (nameAt names k))
       [0..<length (identifiers dnis)]"
proof (induction dnis arbitrary: names idCounter)
  case Nil
  then show ?case by (simp add: identifiers_def)
next
  case (Cons l dnis)
  show ?case
  proof (cases "TrimSpace l = []")
    case True
    then have "identifiers (l # dnis) = identifiers dnis" by (simp add: identifiers_def)
    then show ?thesis using True Cons.IH [of names idCounter] by simp
  next
    case False
    then have ids: "identifiers (l # dnis) = TrimSpace l # identifiers dnis"
      by (simp add: identifiers_def)
    show ?thesis
    proof (cases names)
      case Nil
      then show ?thesis
        using False ids Cons.IH [of "[]" "idCounter + 1"]
        by (simp add: map_upt_shift nameAt_Nil del: upt_Suc)
    next
      case (Cons n names')
      then show ?thesis
        using False ids Cons.IH [of names' "idCounter + 1"]
        by (simp add: map_upt_shift nameAt_Cons nameAt_0 del: upt_Suc)
    qed
  qed
qed

lemma initialRows_rows:
  "initialRows rawDnis rawNombres =
     map (\<lambda>k. newRow k (identifiers (ScanLines rawDnis) ! k) (nameAt (ScanLines rawNombres) k))
       [0..<length (identifiers (ScanLines rawDnis))]"
  using scanRows_rows [of "ScanLines rawDnis" "ScanLines rawNombres" 0]
  by (simp add: initialRows_def)

lemma ID_newRow: "ID (newRow idCounter dni lineaNombre) = idCounter"
  by (simp add: newRow_def Let_def)

lemma initialRows_ids:
  "map ID (initialRows rawDnis rawNombres) = [0..<length (initialRows rawDnis rawNombres)]"
proof -
  have len: "length (initialRows rawDnis rawNombres) = length (identifiers (ScanLines rawDnis))"
    unfolding initialRows_rows by simp
  have "map ID (initialRows rawDnis rawNombres) =
      map (\<lambda>k. k) [0..<length (identifiers (ScanLines rawDnis))]"
    unfolding initialRows_rows by (simp add: ID_newRow comp_def)
  then show ?thesis using len by simp
qed

lemma fresh_newRow: "fresh (newRow idCounter dni lineaNombre)"
  by (simp add: fresh_def newRow_def unsetAPI_def Let_def)

lemma initialRows_fresh: "r \<in> set (initialRows rawDnis rawNombres) \<Longrightarrow> fresh r"
  unfolding initialRows_rows by (auto simp: fresh_newRow)




section \<open>The goroutines\<close>

subsection \<open>Lists of tasks\<close>

lemma filter_update_same:
  "i < length xs \<Longrightarrow> P y = P (xs ! i) \<Longrightarrow>
   length (filter P (xs[i := y])) = length (filter P xs)"
proof (induction xs arbitrary: i)
  case Nil
  then show ?case by simp
next
  case (Cons x xs)
  then show ?case by (cases i) auto
qed

lemma filter_update_gain:
  "i < length xs \<Longrightarrow> P y \<Longrightarrow> \<not> P (xs ! i) \<Longrightarrow>
   length (filter P (xs[i := y])) = Suc (length (filter P xs))"
proof (induction xs arbitrary: i)
  case Nil
  then show ?case by simp
next
  case (Cons x xs)
  then show ?case by (cases i) auto
qed

lemma filter_update_loss:
  "i < length xs \<Longrightarrow> \<not> P y \<Longrightarrow> P (xs ! i) \<Longrightarrow>
   Suc (length (filter P (xs[i := y]))) = length (filter P xs)"
proof (induction xs arbitrary: i)
  case Nil
  then show ?case by simp
next
  case (Cons x xs)
  then show ?case by (cases i) auto
qed

lemma filter_nth_pos: "i < length xs \<Longrightarrow> P (xs ! i) \<Longrightarrow> 0 < length (filter P xs)"
  by (metis filter_empty_conv length_greater_0_conv nth_mem)

lemma filter_none: "length (filter P xs) = 0 \<Longrightarrow> x \<in> set xs \<Longrightarrow> \<not> P x"
  by (simp add: filter_empty_conv)

lemma filter_le_filter:
  "(\<And>x. P x \<Longrightarrow> Q x) \<Longrightarrow> length (filter P xs) \<le> length (filter Q xs)"
  by (induction xs) auto

lemma map_update_same:
  "i < length xs \<Longrightarrow> f y = f (xs ! i) \<Longrightarrow> map f (xs[i := y]) = map f xs"
  by (simp add: map_update list_update_same_conv)

lemma mset_filter_update_out:
  "i < length xs \<Longrightarrow> \<not> P y \<Longrightarrow> \<not> P (xs ! i) \<Longrightarrow>
   mset (map f (filter P (xs[i := y]))) = mset (map f (filter P xs))"
proof (induction xs arbitrary: i)
  case Nil
  then show ?case by simp
next
  case (Cons x xs)
  then show ?case by (cases i) auto
qed

lemma mset_filter_update_in:
  "i < length xs \<Longrightarrow> P y \<Longrightarrow> \<not> P (xs ! i) \<Longrightarrow>
   mset (map f (filter P (xs[i := y]))) = add_mset (f y) (mset (map f (filter P xs)))"
proof (induction xs arbitrary: i)
  case Nil
  then show ?case by simp
next
  case (Cons x xs)
  then show ?case by (cases i) auto
qed

lemma mset_filter_update_keep:
  "i < length xs \<Longrightarrow> P y \<Longrightarrow> P (xs ! i) \<Longrightarrow> f y = f (xs ! i) \<Longrightarrow>
   mset (map f (filter P (xs[i := y]))) = mset (map f (filter P xs))"
proof (induction xs arbitrary: i)
  case Nil
  then show ?case by simp
next
  case (Cons x xs)
  then show ?case by (cases i) auto
qed

lemma list_all_update:
  "list_all P xs \<Longrightarrow> P y \<Longrightarrow> list_all P (xs[i := y])"
  by (induction xs arbitrary: i) (auto split: nat.splits)

lemma list_all_nth: "list_all P xs \<Longrightarrow> i < length xs \<Longrightarrow> P (xs ! i)"
  by (simp add: list_all_length)

subsection \<open>What an event does\<close>

lemma step_Add:
  assumes "step W m Add s = Some s'"
  shows "\<exists>row rest. producer s = Ranging (row # rest) \<and> \<not> exited s
     \<and> s' = s\<lparr>producer := Launching row rest, wg := wg s + 1\<rparr>"
  using assms by (auto split: producer.splits list.splits if_splits)

lemma step_Go:
  assumes "step W m Go s = Some s'"
  shows "\<exists>row rest. producer s = Launching row rest \<and> \<not> exited s
     \<and> s' = s\<lparr>producer := Ranging rest,
              tasks := tasks s @ [\<lparr>trow = row, tpc = Spawned, panicking = False\<rparr>]\<rparr>"
  using assms by (auto split: producer.splits list.splits if_splits)

lemma step_Wait:
  assumes "step W m Wait s = Some s'"
  shows "producer s = Ranging [] \<and> \<not> exited s \<and> wg s = 0 \<and> s' = s\<lparr>producer := Closing\<rparr>"
  using assms by (auto split: producer.splits list.splits if_splits)

lemma step_Close:
  assumes "step W m Close s = Some s'"
  shows "producer s = Closing \<and> \<not> exited s \<and> s' = s\<lparr>producer := Returned, closed := True\<rparr>"
  using assms by (auto split: producer.splits list.splits if_splits)

lemma step_Acquire:
  assumes "step W m (Acquire i) s = Some s'"
  shows "atPc s i Spawned \<and> \<not> exited s \<and> sem s < W
     \<and> s' = s\<lparr>tasks := setPc s i Holding, sem := sem s + 1\<rparr>"
  using assms by (auto split: if_splits)

lemma step_Lookup:
  assumes "step W m (Lookup i client) s = Some s'"
  shows "atPc s i Holding \<and> \<not> exited s
     \<and> (case processRow m client (trow (tasks s ! i)) of
          None \<Rightarrow> s' = s\<lparr>tasks := panicAt s i Releasing\<rparr>
        | Some r \<Rightarrow> s' = s\<lparr>tasks := (tasks s)[i := (tasks s ! i)\<lparr>trow := r, tpc := Sending\<rparr>]\<rparr>)"
  using assms by (auto split: if_splits option.splits)

lemma step_Send:
  assumes "step W m (Send i) s = Some s'"
  shows "atPc s i Sending \<and> \<not> exited s
     \<and> (if closed s then s' = s\<lparr>tasks := panicAt s i Releasing\<rparr>
        else s' = s\<lparr>tasks := setPc s i Releasing,
                    delivered := delivered s @ [trow (tasks s ! i)]\<rparr>)"
  using assms by (auto split: if_splits)

lemma step_Release:
  assumes "step W m (Release i) s = Some s'"
  shows "atPc s i Releasing \<and> \<not> exited s \<and> 0 < sem s
     \<and> s' = s\<lparr>tasks := setPc s i Finishing, sem := sem s - 1\<rparr>"
  using assms by (auto split: if_splits)

lemma step_Done:
  assumes "step W m (Done i) s = Some s'"
  shows "atPc s i Finishing \<and> \<not> exited s
     \<and> (if wg s = 0 then s' = s\<lparr>tasks := panicAt s i Ended\<rparr>
        else s' = s\<lparr>tasks := setPc s i Ended, wg := wg s - 1\<rparr>)"
  using assms by (auto split: if_splits)

lemma step_Exit:
  assumes "step W m (Exit i) s = Some s'"
  shows "atPc s i Ended \<and> panicking (tasks s ! i) \<and> \<not> exited s \<and> s' = s\<lparr>exited := True\<rparr>"
  using assms by (auto split: if_splits)

declare step.simps [simp del]

lemma run_invariant:
  assumes "\<And>e s s'. P s \<Longrightarrow> step W m e s = Some s' \<Longrightarrow> P s'"
  shows "P s \<Longrightarrow> run W m es s = Some s' \<Longrightarrow> P s'"
proof (induction es arbitrary: s)
  case Nil
  then show ?case by simp
next
  case (Cons e es)
  then obtain s1 where s1: "step W m e s = Some s1" "run W m es s1 = Some s'"
    by (auto split: option.splits)
  from Cons.IH [OF assms [OF Cons.prems(1) s1(1)] s1(2)] show ?case .
qed

subsection \<open>The barrier\<close>

lemma barrierInv_init: "barrierInv (initSystem rows)"
  by (simp add: barrierInv_def initSystem_def)

lemma not_pastWait:
  assumes "barrierInv s" and "atPc s i p" and "p \<noteq> Ended"
  shows "\<not> pastWait (producer s)" and "\<not> closed s"
proof -
  have "tasks s ! i \<in> set (tasks s)" using assms(2) by (simp add: atPc_def)
  moreover have "tpc (tasks s ! i) \<noteq> Ended" using assms(2,3) by (simp add: atPc_def)
  ultimately show "\<not> pastWait (producer s)" using assms(1) by (auto simp: barrierInv_def)
  then show "\<not> closed s" using assms(1) by (auto simp: barrierInv_def)
qed

lemma not_panicking:
  assumes "barrierInv s" and "atPc s i p" and "\<not> pastSend p"
  shows "\<not> panicking (tasks s ! i)"
proof -
  have all: "list_all (\<lambda>t. panicking t \<longrightarrow> pastSend (tpc t)) (tasks s)"
    using assms(1) by (simp add: barrierInv_def)
  have i: "i < length (tasks s)" and p: "tpc (tasks s ! i) = p"
    using assms(2) by (simp_all add: atPc_def)
  have "panicking (tasks s ! i) \<longrightarrow> pastSend (tpc (tasks s ! i))"
    using list_all_nth [OF all i] .
  then show ?thesis using assms(3) p by auto
qed

lemma wg_positive:
  assumes "barrierInv s" and "atPc s i p" and "p \<noteq> Ended"
  shows "wg s \<noteq> 0"
proof -
  have "0 < length (filter (\<lambda>t. tpc t \<noteq> Ended) (tasks s))"
    using filter_nth_pos [of i "tasks s" "\<lambda>t. tpc t \<noteq> Ended"] assms(2,3)
    by (simp add: atPc_def)
  then show ?thesis using assms(1) by (simp add: barrierInv_def)
qed

text \<open>With the barrier in place the lookup is the only statement that panics.\<close>

lemma step_Lookup_calm:
  assumes "barrierInv s" and "step W m (Lookup i client) s = Some s'"
  shows "atPc s i Holding \<and> \<not> panicking (tasks s ! i)
     \<and> (case processRow m client (trow (tasks s ! i)) of
          None \<Rightarrow> s' = s\<lparr>tasks := panicAt s i Releasing\<rparr>
        | Some r \<Rightarrow> s' = s\<lparr>tasks := (tasks s)[i := (tasks s ! i)\<lparr>trow := r, tpc := Sending\<rparr>]\<rparr>)"
proof -
  have en: "atPc s i Holding" using step_Lookup [OF assms(2)] by simp
  have "\<not> panicking (tasks s ! i)"
    using assms(1) en by (rule not_panicking) (simp add: pastSend_def)
  then show ?thesis using step_Lookup [OF assms(2)] by simp
qed

lemma step_Send_open:
  assumes "barrierInv s" and "step W m (Send i) s = Some s'"
  shows "atPc s i Sending \<and> \<not> panicking (tasks s ! i) \<and> \<not> closed s
     \<and> s' = s\<lparr>tasks := setPc s i Releasing, delivered := delivered s @ [trow (tasks s ! i)]\<rparr>"
proof -
  have en: "atPc s i Sending" using step_Send [OF assms(2)] by simp
  have np: "\<not> panicking (tasks s ! i)"
    using assms(1) en by (rule not_panicking) (simp add: pastSend_def)
  have nc: "\<not> closed s" using not_pastWait(2) [OF assms(1) en] by simp
  show ?thesis using step_Send [OF assms(2)] np nc by simp
qed

lemma step_Done_counted:
  assumes "barrierInv s" and "step W m (Done i) s = Some s'"
  shows "atPc s i Finishing \<and> wg s \<noteq> 0
     \<and> s' = s\<lparr>tasks := setPc s i Ended, wg := wg s - 1\<rparr>"
proof -
  have en: "atPc s i Finishing" using step_Done [OF assms(2)] by simp
  have "wg s \<noteq> 0" using wg_positive [OF assms(1) en] by simp
  then show ?thesis using step_Done [OF assms(2)] by simp
qed

lemma barrier_update:
  assumes "barrierInv s" and "atPc s i p" and "p \<noteq> Ended" and "tpc t \<noteq> Ended"
    and "panicking t \<longrightarrow> pastSend (tpc t)"
  shows "barrierInv (s\<lparr>tasks := (tasks s)[i := t]\<rparr>)"
proof -
  have "length (filter (\<lambda>t. tpc t \<noteq> Ended) ((tasks s)[i := t]))
     = length (filter (\<lambda>t. tpc t \<noteq> Ended) (tasks s))"
    using assms(2,3,4) by (intro filter_update_same) (simp_all add: atPc_def)
  moreover have "list_all (\<lambda>t. panicking t \<longrightarrow> pastSend (tpc t)) ((tasks s)[i := t])"
    using assms(1,5) by (intro list_all_update) (simp_all add: barrierInv_def)
  ultimately show ?thesis
    using assms(1) not_pastWait(1) [OF assms(1,2,3)] by (simp add: barrierInv_def)
qed

lemma barrier_setPc:
  assumes "barrierInv s" and "atPc s i p" and "p \<noteq> Ended" and "q \<noteq> Ended"
    and "pastSend p \<longrightarrow> pastSend q"
  shows "barrierInv (s\<lparr>tasks := setPc s i q\<rparr>)"
proof -
  have "panicking (tasks s ! i) \<longrightarrow> pastSend p"
    using not_panicking [OF assms(1,2)] by blast
  then have "panicking ((tasks s ! i)\<lparr>tpc := q\<rparr>) \<longrightarrow> pastSend (tpc ((tasks s ! i)\<lparr>tpc := q\<rparr>))"
    using assms(5) by simp
  then show ?thesis
    unfolding setPc_def using assms(1,2,3,4) by (intro barrier_update) simp_all
qed

lemma barrierInv_step:
  assumes "barrierInv s" and "step W m e s = Some s'"
  shows "barrierInv s'"
proof (cases e)
  case Add
  then obtain row rest where "producer s = Ranging (row # rest)"
    "s' = s\<lparr>producer := Launching row rest, wg := wg s + 1\<rparr>"
    using assms(2) step_Add by blast
  then show ?thesis using assms(1) by (simp add: barrierInv_def)
next
  case Go
  then obtain row rest where "producer s = Launching row rest"
    "s' = s\<lparr>producer := Ranging rest,
           tasks := tasks s @ [\<lparr>trow = row, tpc = Spawned, panicking = False\<rparr>]\<rparr>"
    using assms(2) step_Go by blast
  then show ?thesis using assms(1) by (simp add: barrierInv_def)
next
  case Wait
  then have w: "producer s = Ranging []" "wg s = 0" "s' = s\<lparr>producer := Closing\<rparr>"
    using assms(2) step_Wait by blast+
  have "length (filter (\<lambda>t. tpc t \<noteq> Ended) (tasks s)) = 0"
    using assms(1) w by (simp add: barrierInv_def)
  then have "\<forall>t \<in> set (tasks s). tpc t = Ended"
    using filter_none [of "\<lambda>t. tpc t \<noteq> Ended" "tasks s"] by blast
  then show ?thesis using assms(1) w by (simp add: barrierInv_def)
next
  case Close
  then have "producer s = Closing" "s' = s\<lparr>producer := Returned, closed := True\<rparr>"
    using assms(2) step_Close by blast+
  then show ?thesis using assms(1) by (simp add: barrierInv_def)
next
  case (Acquire i)
  then have en: "atPc s i Spawned" and s': "s' = s\<lparr>tasks := setPc s i Holding, sem := sem s + 1\<rparr>"
    using assms(2) step_Acquire by blast+
  have "barrierInv (s\<lparr>tasks := setPc s i Holding\<rparr>)"
    using assms(1) en by (rule barrier_setPc) (simp_all add: pastSend_def)
  then show ?thesis using s' by (simp add: barrierInv_def)
next
  case (Lookup i client)
  then have en: "atPc s i Holding" "\<not> panicking (tasks s ! i)"
    and r: "case processRow m client (trow (tasks s ! i)) of
          None \<Rightarrow> s' = s\<lparr>tasks := panicAt s i Releasing\<rparr>
        | Some r \<Rightarrow> s' = s\<lparr>tasks := (tasks s)[i := (tasks s ! i)\<lparr>trow := r, tpc := Sending\<rparr>]\<rparr>"
    using step_Lookup_calm [OF assms(1)] assms(2) by blast+
  show ?thesis
  proof (cases "processRow m client (trow (tasks s ! i))")
    case None
    then have s': "s' = s\<lparr>tasks := panicAt s i Releasing\<rparr>" using r by simp
    show ?thesis unfolding s' panicAt_def using assms(1) en(1)
      by (rule barrier_update) (simp_all add: pastSend_def)
  next
    case (Some row)
    then have s': "s' = s\<lparr>tasks := (tasks s)[i := (tasks s ! i)\<lparr>trow := row, tpc := Sending\<rparr>]\<rparr>"
      using r by simp
    show ?thesis unfolding s' using assms(1) en(1)
      by (rule barrier_update) (simp_all add: en(2))
  qed
next
  case (Send i)
  then have en: "atPc s i Sending"
    and s': "s' = s\<lparr>tasks := setPc s i Releasing, delivered := delivered s @ [trow (tasks s ! i)]\<rparr>"
    using step_Send_open [OF assms(1)] assms(2) by blast+
  have "barrierInv (s\<lparr>tasks := setPc s i Releasing\<rparr>)"
    using assms(1) en by (rule barrier_setPc) (simp_all add: pastSend_def)
  then show ?thesis using s' by (simp add: barrierInv_def)
next
  case (Release i)
  then have en: "atPc s i Releasing"
    and s': "s' = s\<lparr>tasks := setPc s i Finishing, sem := sem s - 1\<rparr>"
    using assms(2) step_Release by blast+
  have "barrierInv (s\<lparr>tasks := setPc s i Finishing\<rparr>)"
    using assms(1) en by (rule barrier_setPc) (simp_all add: pastSend_def)
  then show ?thesis using s' by (simp add: barrierInv_def)
next
  case (Done i)
  then have en: "atPc s i Finishing" and pos: "wg s \<noteq> 0"
    and s': "s' = s\<lparr>tasks := setPc s i Ended, wg := wg s - 1\<rparr>"
    using step_Done_counted [OF assms(1)] assms(2) by blast+
  have i: "i < length (tasks s)" "tpc (tasks s ! i) \<noteq> Ended"
    using en by (simp_all add: atPc_def)
  have loss: "Suc (length (filter (\<lambda>t. tpc t \<noteq> Ended) (setPc s i Ended)))
      = length (filter (\<lambda>t. tpc t \<noteq> Ended) (tasks s))"
    unfolding setPc_def using i by (intro filter_update_loss) simp_all
  have np: "\<not> pastWait (producer s)" using not_pastWait(1) [OF assms(1) en] by simp
  have pn: "list_all (\<lambda>t. panicking t \<longrightarrow> pastSend (tpc t)) (setPc s i Ended)"
    unfolding setPc_def using assms(1)
    by (intro list_all_update) (simp_all add: barrierInv_def pastSend_def)
  show ?thesis
    using assms(1) s' loss np pn pos by (auto simp: barrierInv_def)
next
  case (Exit i)
  then have "s' = s\<lparr>exited := True\<rparr>" using assms(2) step_Exit by blast
  then show ?thesis using assms(1) by (simp add: barrierInv_def)
qed

lemma run_barrierInv:
  "run W m es (initSystem rows) = Some s \<Longrightarrow> barrierInv s"
  using run_invariant [of barrierInv W m "initSystem rows" es s]
    barrierInv_step barrierInv_init by blast

subsection \<open>The permits\<close>

lemma permitsInv_init: "permitsInv W (initSystem rows)"
  by (simp add: permitsInv_def initSystem_def)

lemma permits_update:
  assumes "permitsInv W s" and "atPc s i p" and "holdsPermit t = holdsPermit (tasks s ! i)"
  shows "permitsInv W (s\<lparr>tasks := (tasks s)[i := t]\<rparr>)"
proof -
  have "length (filter holdsPermit ((tasks s)[i := t])) = length (filter holdsPermit (tasks s))"
    using assms(2,3) by (intro filter_update_same) (simp_all add: atPc_def)
  then show ?thesis using assms(1) by (simp add: permitsInv_def)
qed

lemma permitsInv_step:
  assumes "permitsInv W s" and "step W m e s = Some s'"
  shows "permitsInv W s'"
proof (cases e)
  case Add
  then obtain row rest where "s' = s\<lparr>producer := Launching row rest, wg := wg s + 1\<rparr>"
    using assms(2) step_Add by blast
  then show ?thesis using assms(1) by (simp add: permitsInv_def)
next
  case Go
  then obtain row rest where
    "s' = s\<lparr>producer := Ranging rest,
           tasks := tasks s @ [\<lparr>trow = row, tpc = Spawned, panicking = False\<rparr>]\<rparr>"
    using assms(2) step_Go by blast
  then show ?thesis using assms(1) by (simp add: permitsInv_def holdsPermit_def)
next
  case Wait
  then have "s' = s\<lparr>producer := Closing\<rparr>" using assms(2) step_Wait by blast
  then show ?thesis using assms(1) by (simp add: permitsInv_def)
next
  case Close
  then have "s' = s\<lparr>producer := Returned, closed := True\<rparr>"
    using assms(2) step_Close by blast
  then show ?thesis using assms(1) by (simp add: permitsInv_def)
next
  case (Acquire i)
  then have en: "atPc s i Spawned" and lt: "sem s < W"
    and s': "s' = s\<lparr>tasks := setPc s i Holding, sem := sem s + 1\<rparr>"
    using assms(2) step_Acquire by blast+
  have "length (filter holdsPermit (setPc s i Holding))
      = Suc (length (filter holdsPermit (tasks s)))"
    unfolding setPc_def using en
    by (intro filter_update_gain) (simp_all add: atPc_def holdsPermit_def)
  then show ?thesis using assms(1) s' lt by (simp add: permitsInv_def)
next
  case (Lookup i client)
  then have en: "atPc s i Holding"
    and r: "case processRow m client (trow (tasks s ! i)) of
          None \<Rightarrow> s' = s\<lparr>tasks := panicAt s i Releasing\<rparr>
        | Some r \<Rightarrow> s' = s\<lparr>tasks := (tasks s)[i := (tasks s ! i)\<lparr>trow := r, tpc := Sending\<rparr>]\<rparr>"
    using assms(2) step_Lookup by blast+
  have h: "holdsPermit (tasks s ! i)" using en by (simp add: atPc_def holdsPermit_def)
  show ?thesis
  proof (cases "processRow m client (trow (tasks s ! i))")
    case None
    then have s': "s' = s\<lparr>tasks := panicAt s i Releasing\<rparr>" using r by simp
    show ?thesis unfolding s' panicAt_def using assms(1) en
      by (rule permits_update) (simp add: h, simp add: holdsPermit_def)
  next
    case (Some row)
    then have s': "s' = s\<lparr>tasks := (tasks s)[i := (tasks s ! i)\<lparr>trow := row, tpc := Sending\<rparr>]\<rparr>"
      using r by simp
    show ?thesis unfolding s' using assms(1) en
      by (rule permits_update) (simp add: h, simp add: holdsPermit_def)
  qed
next
  case (Send i)
  then have en: "atPc s i Sending"
    and r: "if closed s then s' = s\<lparr>tasks := panicAt s i Releasing\<rparr>
        else s' = s\<lparr>tasks := setPc s i Releasing,
                    delivered := delivered s @ [trow (tasks s ! i)]\<rparr>"
    using assms(2) step_Send by blast+
  have h: "holdsPermit (tasks s ! i)" using en by (simp add: atPc_def holdsPermit_def)
  have a: "permitsInv W (s\<lparr>tasks := panicAt s i Releasing\<rparr>)"
    unfolding panicAt_def using assms(1) en
    by (rule permits_update) (simp add: h, simp add: holdsPermit_def)
  have "permitsInv W (s\<lparr>tasks := setPc s i Releasing\<rparr>)"
    unfolding setPc_def using assms(1) en
    by (rule permits_update) (simp add: h, simp add: holdsPermit_def)
  then have b: "permitsInv W (s\<lparr>tasks := setPc s i Releasing,
      delivered := delivered s @ [trow (tasks s ! i)]\<rparr>)"
    by (simp add: permitsInv_def)
  show ?thesis using r a b by (cases "closed s") simp_all
next
  case (Release i)
  then have en: "atPc s i Releasing" and pos: "0 < sem s"
    and s': "s' = s\<lparr>tasks := setPc s i Finishing, sem := sem s - 1\<rparr>"
    using assms(2) step_Release by blast+
  have "Suc (length (filter holdsPermit (setPc s i Finishing)))
      = length (filter holdsPermit (tasks s))"
    unfolding setPc_def using en
    by (intro filter_update_loss) (simp_all add: atPc_def holdsPermit_def)
  then show ?thesis using assms(1) s' pos by (auto simp: permitsInv_def)
next
  case (Done i)
  then have en: "atPc s i Finishing"
    and r: "if wg s = 0 then s' = s\<lparr>tasks := panicAt s i Ended\<rparr>
        else s' = s\<lparr>tasks := setPc s i Ended, wg := wg s - 1\<rparr>"
    using assms(2) step_Done by blast+
  have h: "\<not> holdsPermit (tasks s ! i)" using en by (simp add: atPc_def holdsPermit_def)
  have a: "permitsInv W (s\<lparr>tasks := panicAt s i Ended\<rparr>)"
    unfolding panicAt_def using assms(1) en
    by (rule permits_update) (simp add: h, simp add: holdsPermit_def)
  have "permitsInv W (s\<lparr>tasks := setPc s i Ended\<rparr>)"
    unfolding setPc_def using assms(1) en
    by (rule permits_update) (simp add: h, simp add: holdsPermit_def)
  then have b: "permitsInv W (s\<lparr>tasks := setPc s i Ended, wg := wg s - 1\<rparr>)"
    by (simp add: permitsInv_def)
  show ?thesis using r a b by (cases "wg s = 0") simp_all
next
  case (Exit i)
  then have "s' = s\<lparr>exited := True\<rparr>" using assms(2) step_Exit by blast
  then show ?thesis using assms(1) by (simp add: permitsInv_def)
qed

lemma run_permitsInv:
  "run W m es (initSystem rows) = Some s \<Longrightarrow> permitsInv W s"
  using run_invariant [of "permitsInv W" W m "initSystem rows" es s]
    permitsInv_step permitsInv_init by blast

lemma inFlight_le_sem: "permitsInv W s \<Longrightarrow> inFlight s \<le> sem s"
  unfolding permitsInv_def inFlight_def
  using filter_le_filter [of "\<lambda>t. tpc t = Holding" holdsPermit "tasks s"]
  by (simp add: holdsPermit_def)

subsection \<open>The rows\<close>

lemma rowsInv_init: "rowsInv rows (initSystem rows)"
  by (simp add: rowsInv_def initSystem_def)

lemma rows_update_out:
  assumes "rowsInv rows s" and "atPc s i p" and "ID (trow t) = ID (trow (tasks s ! i))"
    and "\<not> hasSent t" and "\<not> hasSent (tasks s ! i)"
  shows "rowsInv rows (s\<lparr>tasks := (tasks s)[i := t]\<rparr>)"
proof -
  have i: "i < length (tasks s)" using assms(2) by (simp add: atPc_def)
  have "map (\<lambda>t. ID (trow t)) ((tasks s)[i := t]) = map (\<lambda>t. ID (trow t)) (tasks s)"
    using i assms(3) by (intro map_update_same) simp_all
  moreover have "mset (map trow (filter hasSent ((tasks s)[i := t])))
      = mset (map trow (filter hasSent (tasks s)))"
    using i assms(4,5) by (rule mset_filter_update_out)
  ultimately show ?thesis using assms(1) by (simp add: rowsInv_def)
qed

lemma rows_update_keep:
  assumes "rowsInv rows s" and "atPc s i p" and "trow t = trow (tasks s ! i)"
    and "hasSent t" and "hasSent (tasks s ! i)"
  shows "rowsInv rows (s\<lparr>tasks := (tasks s)[i := t]\<rparr>)"
proof -
  have i: "i < length (tasks s)" using assms(2) by (simp add: atPc_def)
  have "map (\<lambda>t. ID (trow t)) ((tasks s)[i := t]) = map (\<lambda>t. ID (trow t)) (tasks s)"
    using i assms(3) by (intro map_update_same) simp_all
  moreover have "mset (map trow (filter hasSent ((tasks s)[i := t])))
      = mset (map trow (filter hasSent (tasks s)))"
    using i assms(4,5,3) by (rule mset_filter_update_keep)
  ultimately show ?thesis using assms(1) by (simp add: rowsInv_def)
qed

lemma rows_setPc:
  assumes "rowsInv rows s" and "atPc s i p" and "pastSend p = pastSend q"
  shows "rowsInv rows (s\<lparr>tasks := setPc s i q\<rparr>)"
proof (cases "hasSent (tasks s ! i)")
  case True
  then have "hasSent ((tasks s ! i)\<lparr>tpc := q\<rparr>)"
    using assms(2,3) by (simp add: hasSent_def atPc_def)
  with True show ?thesis unfolding setPc_def using assms(1,2)
    by (intro rows_update_keep) simp_all
next
  case False
  then have "\<not> hasSent ((tasks s ! i)\<lparr>tpc := q\<rparr>)"
    using assms(2,3) by (simp add: hasSent_def atPc_def)
  with False show ?thesis unfolding setPc_def using assms(1,2)
    by (intro rows_update_out) simp_all
qed

lemma processRow_ID: "processRow m client r = Some r' \<Longrightarrow> ID r' = ID r"
  by (auto simp: processRow_def finishRow_def Let_def compareNames_def
      split: if_splits option.splits sum.splits)

lemma rowsInv_step:
  assumes "barrierInv s" and "rowsInv rows s" and "step W m e s = Some s'"
  shows "rowsInv rows s'"
proof (cases e)
  case Add
  then obtain row rest where "producer s = Ranging (row # rest)"
    "s' = s\<lparr>producer := Launching row rest, wg := wg s + 1\<rparr>"
    using assms(3) step_Add by blast
  then show ?thesis using assms(2) by (simp add: rowsInv_def)
next
  case Go
  then obtain row rest where "producer s = Launching row rest"
    "s' = s\<lparr>producer := Ranging rest,
           tasks := tasks s @ [\<lparr>trow = row, tpc = Spawned, panicking = False\<rparr>]\<rparr>"
    using assms(3) step_Go by blast
  then show ?thesis using assms(2) by (simp add: rowsInv_def hasSent_def pastSend_def)
next
  case Wait
  then have "producer s = Ranging []" "s' = s\<lparr>producer := Closing\<rparr>"
    using assms(3) step_Wait by blast+
  then show ?thesis using assms(2) by (simp add: rowsInv_def)
next
  case Close
  then have "producer s = Closing" "s' = s\<lparr>producer := Returned, closed := True\<rparr>"
    using assms(3) step_Close by blast+
  then show ?thesis using assms(2) by (simp add: rowsInv_def)
next
  case (Acquire i)
  then have en: "atPc s i Spawned"
    and s': "s' = s\<lparr>tasks := setPc s i Holding, sem := sem s + 1\<rparr>"
    using assms(3) step_Acquire by blast+
  have "rowsInv rows (s\<lparr>tasks := setPc s i Holding\<rparr>)"
    using assms(2) en by (rule rows_setPc) (simp add: pastSend_def)
  then show ?thesis using s' by (simp add: rowsInv_def)
next
  case (Lookup i client)
  then have en: "atPc s i Holding"
    and r: "case processRow m client (trow (tasks s ! i)) of
          None \<Rightarrow> s' = s\<lparr>tasks := panicAt s i Releasing\<rparr>
        | Some r \<Rightarrow> s' = s\<lparr>tasks := (tasks s)[i := (tasks s ! i)\<lparr>trow := r, tpc := Sending\<rparr>]\<rparr>"
    using assms(3) step_Lookup by blast+
  have h: "\<not> hasSent (tasks s ! i)"
    using en by (simp add: atPc_def hasSent_def pastSend_def)
  show ?thesis
  proof (cases "processRow m client (trow (tasks s ! i))")
    case None
    then have s': "s' = s\<lparr>tasks := panicAt s i Releasing\<rparr>" using r by simp
    have b: "\<not> hasSent ((tasks s ! i)\<lparr>tpc := Releasing, panicking := True\<rparr>)"
      by (simp add: hasSent_def)
    show ?thesis unfolding s' panicAt_def using assms(2) en _ b h
      by (rule rows_update_out) simp
  next
    case (Some row)
    then have s': "s' = s\<lparr>tasks := (tasks s)[i := (tasks s ! i)\<lparr>trow := row, tpc := Sending\<rparr>]\<rparr>"
      using r by simp
    have a: "ID (trow ((tasks s ! i)\<lparr>trow := row, tpc := Sending\<rparr>)) = ID (trow (tasks s ! i))"
      using processRow_ID [OF Some] by simp
    have b: "\<not> hasSent ((tasks s ! i)\<lparr>trow := row, tpc := Sending\<rparr>)"
      by (simp add: hasSent_def pastSend_def)
    show ?thesis unfolding s' using assms(2) en a b h by (rule rows_update_out)
  qed
next
  case (Send i)
  then have en: "atPc s i Sending" and np: "\<not> panicking (tasks s ! i)"
    and s': "s' = s\<lparr>tasks := setPc s i Releasing,
                   delivered := delivered s @ [trow (tasks s ! i)]\<rparr>"
    using step_Send_open [OF assms(1)] assms(3) by blast+
  have i: "i < length (tasks s)" using en by (simp add: atPc_def)
  have ids: "map (\<lambda>t. ID (trow t)) (setPc s i Releasing) = map (\<lambda>t. ID (trow t)) (tasks s)"
    unfolding setPc_def using i by (intro map_update_same) simp_all
  have "mset (map trow (filter hasSent (setPc s i Releasing)))
      = add_mset (trow ((tasks s ! i)\<lparr>tpc := Releasing\<rparr>))
          (mset (map trow (filter hasSent (tasks s))))"
    unfolding setPc_def using i en np
    by (intro mset_filter_update_in) (simp_all add: atPc_def hasSent_def pastSend_def)
  then show ?thesis using assms(2) s' ids by (simp add: rowsInv_def)
next
  case (Release i)
  then have en: "atPc s i Releasing"
    and s': "s' = s\<lparr>tasks := setPc s i Finishing, sem := sem s - 1\<rparr>"
    using assms(3) step_Release by blast+
  have "rowsInv rows (s\<lparr>tasks := setPc s i Finishing\<rparr>)"
    using assms(2) en by (rule rows_setPc) (simp add: pastSend_def)
  then show ?thesis using s' by (simp add: rowsInv_def)
next
  case (Done i)
  then have en: "atPc s i Finishing"
    and s': "s' = s\<lparr>tasks := setPc s i Ended, wg := wg s - 1\<rparr>"
    using step_Done_counted [OF assms(1)] assms(3) by blast+
  have "rowsInv rows (s\<lparr>tasks := setPc s i Ended\<rparr>)"
    using assms(2) en by (rule rows_setPc) (simp add: pastSend_def)
  then show ?thesis using s' by (simp add: rowsInv_def)
next
  case (Exit i)
  then have "s' = s\<lparr>exited := True\<rparr>" using assms(3) step_Exit by blast
  then show ?thesis using assms(2) by (simp add: rowsInv_def)
qed

lemma run_rowsInv:
  assumes "run W m es (initSystem rows) = Some s"
  shows "rowsInv rows s"
proof -
  have "barrierInv s \<and> rowsInv rows s"
    using _ _ assms
  proof (rule run_invariant [where P = "\<lambda>s. barrierInv s \<and> rowsInv rows s"])
    show "barrierInv (initSystem rows) \<and> rowsInv rows (initSystem rows)"
      by (simp add: barrierInv_init rowsInv_init)
  next
    fix e s s'
    assume "barrierInv s \<and> rowsInv rows s" and "step W m e s = Some s'"
    then show "barrierInv s' \<and> rowsInv rows s'"
      using barrierInv_step rowsInv_step by blast
  qed
  then show ?thesis by simp
qed

subsection \<open>The shape\<close>

lemma settled_processRow:
  assumes "fresh r" and "processRow m client r = Some r'"
  shows "settled r'"
proof -
  consider (failed) tag where
      "r' = r\<lparr>IsPending := False, HasError := True, ErrorMessage := tag\<rparr>" "tag \<noteq> []"
    | (resolved) apiData where "r' = compareNames apiData (r\<lparr>IsPending := False\<rparr>)"
    using processRow_outcome [OF assms(2)] by blast
  then show ?thesis
  proof cases
    case failed
    then show ?thesis using assms(1)
      by (simp add: settled_def statusShape_def statusOf_def fresh_def unsetAPI_def)
  next
    case resolved
    then show ?thesis using assms(1)
      by (simp add: settled_def statusShape_def statusOf_def fresh_def compareNames_kept)
  qed
qed

lemma shapeInv_init: "list_all fresh rows \<Longrightarrow> shapeInv (initSystem rows)"
  by (simp add: shapeInv_def initSystem_def)

lemma shape_update:
  assumes "shapeInv s" and "taskShape t"
  shows "shapeInv (s\<lparr>tasks := (tasks s)[i := t]\<rparr>)"
  using assms by (simp add: shapeInv_def list_all_update)

lemma shape_nth:
  assumes "shapeInv s" and "atPc s i p"
  shows "taskShape (tasks s ! i)"
proof -
  have "list_all taskShape (tasks s)" using assms(1) by (simp add: shapeInv_def)
  moreover have "i < length (tasks s)" using assms(2) by (simp add: atPc_def)
  ultimately show ?thesis by (rule list_all_nth)
qed

lemma shape_setPc:
  assumes "shapeInv s" and "atPc s i p"
    and "(p = Spawned \<or> p = Holding) = (q = Spawned \<or> q = Holding)"
  shows "shapeInv (s\<lparr>tasks := setPc s i q\<rparr>)"
proof -
  have "taskShape (tasks s ! i)" using assms(1,2) by (rule shape_nth)
  then have "taskShape ((tasks s ! i)\<lparr>tpc := q\<rparr>)"
    using assms(2,3) by (auto simp: taskShape_def untouched_def atPc_def split: if_splits)
  then show ?thesis unfolding setPc_def using assms(1) by (rule shape_update [rotated])
qed

lemma shapeInv_step:
  assumes "barrierInv s" and "shapeInv s" and "step W m e s = Some s'"
  shows "shapeInv s'"
proof (cases e)
  case Add
  then obtain row rest where "producer s = Ranging (row # rest)"
    "s' = s\<lparr>producer := Launching row rest, wg := wg s + 1\<rparr>"
    using assms(3) step_Add by blast
  then show ?thesis using assms(2) by (simp add: shapeInv_def)
next
  case Go
  then obtain row rest where "producer s = Launching row rest"
    "s' = s\<lparr>producer := Ranging rest,
           tasks := tasks s @ [\<lparr>trow = row, tpc = Spawned, panicking = False\<rparr>]\<rparr>"
    using assms(3) step_Go by blast
  then show ?thesis using assms(2) by (simp add: shapeInv_def taskShape_def untouched_def)
next
  case Wait
  then have "producer s = Ranging []" "s' = s\<lparr>producer := Closing\<rparr>"
    using assms(3) step_Wait by blast+
  then show ?thesis using assms(2) by (simp add: shapeInv_def)
next
  case Close
  then have "producer s = Closing" "s' = s\<lparr>producer := Returned, closed := True\<rparr>"
    using assms(3) step_Close by blast+
  then show ?thesis using assms(2) by (simp add: shapeInv_def)
next
  case (Acquire i)
  then have en: "atPc s i Spawned"
    and s': "s' = s\<lparr>tasks := setPc s i Holding, sem := sem s + 1\<rparr>"
    using assms(3) step_Acquire by blast+
  have "shapeInv (s\<lparr>tasks := setPc s i Holding\<rparr>)"
    using assms(2) en by (rule shape_setPc) simp
  then show ?thesis using s' by (simp add: shapeInv_def)
next
  case (Lookup i client)
  then have en: "atPc s i Holding" and np: "\<not> panicking (tasks s ! i)"
    and r: "case processRow m client (trow (tasks s ! i)) of
          None \<Rightarrow> s' = s\<lparr>tasks := panicAt s i Releasing\<rparr>
        | Some r \<Rightarrow> s' = s\<lparr>tasks := (tasks s)[i := (tasks s ! i)\<lparr>trow := r, tpc := Sending\<rparr>]\<rparr>"
    using step_Lookup_calm [OF assms(1)] assms(3) by blast+
  have "taskShape (tasks s ! i)" using assms(2) en by (rule shape_nth)
  then have fr: "fresh (trow (tasks s ! i))"
    using en by (simp add: taskShape_def untouched_def atPc_def)
  show ?thesis
  proof (cases "processRow m client (trow (tasks s ! i))")
    case None
    then have s': "s' = s\<lparr>tasks := panicAt s i Releasing\<rparr>" using r by simp
    have "taskShape ((tasks s ! i)\<lparr>tpc := Releasing, panicking := True\<rparr>)"
      using fr by (simp add: taskShape_def untouched_def)
    then show ?thesis unfolding s' panicAt_def using assms(2) by (rule shape_update [rotated])
  next
    case (Some row)
    then have s': "s' = s\<lparr>tasks := (tasks s)[i := (tasks s ! i)\<lparr>trow := row, tpc := Sending\<rparr>]\<rparr>"
      using r by simp
    have "settled row" using fr Some by (rule settled_processRow)
    then have "taskShape ((tasks s ! i)\<lparr>trow := row, tpc := Sending\<rparr>)"
      using np by (simp add: taskShape_def untouched_def)
    then show ?thesis unfolding s' using assms(2) by (rule shape_update [rotated])
  qed
next
  case (Send i)
  then have en: "atPc s i Sending" and np: "\<not> panicking (tasks s ! i)"
    and s': "s' = s\<lparr>tasks := setPc s i Releasing,
                   delivered := delivered s @ [trow (tasks s ! i)]\<rparr>"
    using step_Send_open [OF assms(1)] assms(3) by blast+
  have "taskShape (tasks s ! i)" using assms(2) en by (rule shape_nth)
  then have st: "settled (trow (tasks s ! i))"
    using en np by (simp add: taskShape_def untouched_def atPc_def)
  have "shapeInv (s\<lparr>tasks := setPc s i Releasing\<rparr>)"
    using assms(2) en by (rule shape_setPc) simp
  then show ?thesis using s' st by (simp add: shapeInv_def)
next
  case (Release i)
  then have en: "atPc s i Releasing"
    and s': "s' = s\<lparr>tasks := setPc s i Finishing, sem := sem s - 1\<rparr>"
    using assms(3) step_Release by blast+
  have "shapeInv (s\<lparr>tasks := setPc s i Finishing\<rparr>)"
    using assms(2) en by (rule shape_setPc) simp
  then show ?thesis using s' by (simp add: shapeInv_def)
next
  case (Done i)
  then have en: "atPc s i Finishing"
    and s': "s' = s\<lparr>tasks := setPc s i Ended, wg := wg s - 1\<rparr>"
    using step_Done_counted [OF assms(1)] assms(3) by blast+
  have "shapeInv (s\<lparr>tasks := setPc s i Ended\<rparr>)"
    using assms(2) en by (rule shape_setPc) simp
  then show ?thesis using s' by (simp add: shapeInv_def)
next
  case (Exit i)
  then have "s' = s\<lparr>exited := True\<rparr>" using assms(3) step_Exit by blast
  then show ?thesis using assms(2) by (simp add: shapeInv_def)
qed

lemma run_shapeInv:
  assumes "list_all fresh rows" and "run W m es (initSystem rows) = Some s"
  shows "shapeInv s"
proof -
  have "barrierInv s \<and> shapeInv s"
    using _ _ assms(2)
  proof (rule run_invariant [where P = "\<lambda>s. barrierInv s \<and> shapeInv s"])
    show "barrierInv (initSystem rows) \<and> shapeInv (initSystem rows)"
      using assms(1) by (simp add: barrierInv_init shapeInv_init)
  next
    fix e s s'
    assume "barrierInv s \<and> shapeInv s" and "step W m e s = Some s'"
    then show "barrierInv s' \<and> shapeInv s'"
      using barrierInv_step shapeInv_step by blast
  qed
  then show ?thesis by simp
qed

lemma initialRows_all_fresh: "list_all fresh (initialRows rawDnis rawNombres)"
  using initialRows_fresh by (auto simp: list_all_iff)

section \<open>The goroutines: delivery, shape and permits\<close>

lemma distinct_sub_mset:
  assumes "mset xs \<subseteq># mset ys" and "distinct ys"
  shows "distinct xs"
proof -
  obtain Z where Z: "mset ys = mset xs + Z"
    using assms(1) by (auto simp: mset_subset_eq_exists_conv)
  obtain zs where zs: "mset zs = Z" using ex_mset by blast
  have "mset ys = mset (xs @ zs)" using Z zs by simp
  then have "distinct (xs @ zs)" using assms(2) mset_eq_imp_distinct_iff by blast
  then show ?thesis by simp
qed

lemma delivered_ids_sub:
  assumes "rowsInv rows s"
  shows "mset (map ID (delivered s)) \<subseteq># mset (map ID rows)"
proof -
  have "mset (map ID (delivered s)) = image_mset ID (mset (delivered s))" by simp
  also have "\<dots> = image_mset ID (mset (map trow (filter hasSent (tasks s))))"
    using assms by (simp add: rowsInv_def)
  also have "\<dots> = image_mset (\<lambda>t. ID (trow t)) (filter_mset hasSent (mset (tasks s)))"
    by (simp add: multiset.map_comp comp_def)
  also have "\<dots> \<subseteq># image_mset (\<lambda>t. ID (trow t)) (mset (tasks s))"
    by (intro image_mset_subseteq_mono multiset_filter_subset)
  also have "\<dots> = mset (map (\<lambda>t. ID (trow t)) (tasks s))" by simp
  also have "\<dots> \<subseteq># mset (map (\<lambda>t. ID (trow t)) (tasks s) @ map ID (unlaunched (producer s)))"
    by simp
  also have "\<dots> = mset (map ID rows)" using assms by (simp add: rowsInv_def)
  finally show ?thesis .
qed

lemma closed_all_ended:
  assumes "barrierInv s" and "closed s"
  shows "producer s = Returned" and "\<forall>t \<in> set (tasks s). tpc t = Ended"
proof -
  show ret: "producer s = Returned" using assms by (simp add: barrierInv_def)
  then show "\<forall>t \<in> set (tasks s). tpc t = Ended" using assms(1) by (simp add: barrierInv_def)
qed

lemma delivered_ids_closed:
  assumes "rowsInv rows s" and "barrierInv s" and "closed s"
    and "list_all (\<lambda>t. \<not> panicking t) (tasks s)"
  shows "mset (map ID (delivered s)) = mset (map ID rows)"
    and "length (tasks s) = length rows"
proof -
  have ret: "producer s = Returned" and fin: "\<forall>t \<in> set (tasks s). tpc t = Ended"
    using closed_all_ended [OF assms(2,3)] by simp_all
  have all: "filter hasSent (tasks s) = tasks s"
    using fin assms(4) by (simp add: hasSent_def pastSend_def filter_id_conv list_all_iff)
  have ids: "map (\<lambda>t. ID (trow t)) (tasks s) = map ID rows"
    using assms(1) ret by (simp add: rowsInv_def)
  have "mset (map ID (delivered s)) = image_mset ID (mset (delivered s))" by simp
  also have "\<dots> = image_mset ID (mset (map trow (tasks s)))"
    using assms(1) all by (simp add: rowsInv_def)
  also have "\<dots> = mset (map (\<lambda>t. ID (trow t)) (tasks s))"
    by (simp add: multiset.map_comp comp_def)
  finally show "mset (map ID (delivered s)) = mset (map ID rows)" using ids by simp
  show "length (tasks s) = length rows"
    using arg_cong [OF ids, of length] by simp
qed

text \<open>Once the channel is closed only the end of the program is left.\<close>

lemma closed_only_exit:
  assumes "barrierInv s" and "closed s" and "step W m e s = Some s'"
  shows "\<exists>i. e = Exit i \<and> panicking (tasks s ! i) \<and> s' = s\<lparr>exited := True\<rparr>"
proof -
  have ret: "producer s = Returned" using closed_all_ended(1) [OF assms(1,2)] .
  have notask: "\<And>i p. atPc s i p \<Longrightarrow> p \<noteq> Ended \<Longrightarrow> False"
    using not_pastWait(2) [OF assms(1)] assms(2) by blast
  show ?thesis
  proof (cases e)
    case Add
    then show ?thesis using assms(3) ret step_Add [of W m s s'] by auto
  next
    case Go
    then show ?thesis using assms(3) ret step_Go [of W m s s'] by auto
  next
    case Wait
    then show ?thesis using assms(3) ret step_Wait [of W m s s'] by auto
  next
    case Close
    then show ?thesis using assms(3) ret step_Close [of W m s s'] by auto
  next
    case (Acquire i)
    then have "atPc s i Spawned" using assms(3) step_Acquire by blast
    then show ?thesis using notask by blast
  next
    case (Lookup i client)
    then have "atPc s i Holding" using assms(3) step_Lookup by blast
    then show ?thesis using notask by blast
  next
    case (Send i)
    then have "atPc s i Sending" using assms(3) step_Send by blast
    then show ?thesis using notask by blast
  next
    case (Release i)
    then have "atPc s i Releasing" using assms(3) step_Release by blast
    then show ?thesis using notask by blast
  next
    case (Done i)
    then have "atPc s i Finishing" using assms(3) step_Done by blast
    then show ?thesis using notask by blast
  next
    case (Exit i)
    then show ?thesis using assms(3) step_Exit by blast
  qed
qed

text \<open>
  Delivery is without duplicates. In every state of a run the \<open>ID\<close>s of the delivered
  rows are distinct and are among those the scanning loop assigned, which are
  \<open>0, 1, \<dots>\<close> up to the number of rows. (Whether every \<open>ID\<close> is delivered depends on
  the identifiers of the batch; see the last section.)
\<close>

theorem no_row_delivered_twice:
  fixes rawDnis rawNombres :: string
  defines "rows \<equiv> initialRows rawDnis rawNombres"
  assumes "run W m es (initSystem rows) = Some s"
  shows "map ID rows = [0..<length rows]
    \<and> distinct (map ID (delivered s))
    \<and> set (map ID (delivered s)) \<subseteq> {0..<length rows}"
proof -
  have ids: "map ID rows = [0..<length rows]" unfolding rows_def by (rule initialRows_ids)
  have ri: "rowsInv rows s" using assms(2) by (rule run_rowsInv)
  have sub: "mset (map ID (delivered s)) \<subseteq># mset (map ID rows)"
    by (rule delivered_ids_sub [OF ri])
  have "distinct (map ID rows)" unfolding ids by (rule distinct_upt)
  then have d: "distinct (map ID (delivered s))"
    using sub by (rule distinct_sub_mset [rotated])
  have "set_mset (mset (map ID (delivered s))) \<subseteq> set_mset (mset (map ID rows))"
    using sub by (rule set_mset_mono)
  then have "set (map ID (delivered s)) \<subseteq> set (map ID rows)"
    by (simp only: set_mset_mset)
  then have s: "set (map ID (delivered s)) \<subseteq> {0..<length rows}"
    unfolding ids by simp
  show ?thesis using ids d s by blast
qed

theorem no_row_delivered_twice_witness:
  "\<exists>s. handleConsultar dnisGap namesGap scheduleGap = Some s
     \<and> map ID (delivered s) = [1, 0] \<and> distinct (map ID (delivered s))"
proof -
  have "map_option (\<lambda>s. map ID (delivered s)) (handleConsultar dnisGap namesGap scheduleGap)
      = Some [1, 0]"
    by code_simp
  then obtain s where s: "handleConsultar dnisGap namesGap scheduleGap = Some s"
    "map ID (delivered s) = [1, 0]"
    by auto
  have r: "run MaxWorkers MaxRetries scheduleGap (initSystem (initialRows dnisGap namesGap)) = Some s"
    using s(1) by (simp add: handleConsultar_def)
  have "distinct (map ID (delivered s))"
    using no_row_delivered_twice [OF r] by blast
  then show ?thesis using s by (intro exI [of _ s]) simp
qed

text \<open>
  C7. Every delivered row, in every state of a run, is not pending; it carries an error
  message exactly when it is failed, and unless it is resolved its authoritative names
  are empty and its flags false.
\<close>

theorem delivered_rows_have_status_shape:
  assumes "run W m es (initSystem (initialRows rawDnis rawNombres)) = Some s"
    and "r \<in> set (delivered s)"
  shows "statusOf r \<noteq> Pending
    \<and> (ErrorMessage r \<noteq> [] \<longleftrightarrow> statusOf r = Failed)
    \<and> (statusOf r \<noteq> Resolved \<longrightarrow>
         NombreAPI r = [] \<and> PaternoAPI r = [] \<and> MaternoAPI r = []
         \<and> \<not> MatchNombre r \<and> \<not> MatchPaterno r \<and> \<not> MatchMaterno r)"
proof -
  have "shapeInv s"
    using initialRows_all_fresh assms(1) by (rule run_shapeInv)
  then have "settled r"
    using assms(2) by (simp add: shapeInv_def list_all_iff)
  then show ?thesis
    by (auto simp: settled_def statusShape_def statusOf_def unsetAPI_def split: if_splits)
qed

theorem delivered_rows_have_status_shape_witness:
  "\<exists>s r. handleConsultar dnisGap namesGap scheduleGap = Some s \<and> r \<in> set (delivered s)
     \<and> statusOf r = Failed \<and> ErrorMessage r = ''HTTP 404''
     \<and> NombreAPI r = [] \<and> PaternoAPI r = [] \<and> MaternoAPI r = []
     \<and> \<not> MatchNombre r \<and> \<not> MatchPaterno r \<and> \<not> MatchMaterno r"
proof -
  have "map_option (\<lambda>s. (length (delivered s), statusOf (delivered s ! 1),
          ErrorMessage (delivered s ! 1))) (handleConsultar dnisGap namesGap scheduleGap)
      = Some (2, Failed, ''HTTP 404'')"
    by code_simp
  then obtain s where s: "handleConsultar dnisGap namesGap scheduleGap = Some s"
    "length (delivered s) = 2" "statusOf (delivered s ! 1) = Failed"
    "ErrorMessage (delivered s ! 1) = ''HTTP 404''"
    by auto
  have mem: "delivered s ! 1 \<in> set (delivered s)" using s(2) by simp
  have r: "run MaxWorkers MaxRetries scheduleGap (initSystem (initialRows dnisGap namesGap)) = Some s"
    using s(1) by (simp add: handleConsultar_def)
  from delivered_rows_have_status_shape [OF r mem] s mem show ?thesis
    by (intro exI [of _ s] exI [of _ "delivered s ! 1"]) simp
qed

text \<open>
  C9. In every state of a run, for every capacity \<open>W\<close> of \<open>sem\<close>, the goroutines that
  hold a permit (from the send to \<open>sem\<close> up to the deferred receive, which also runs
  when the goroutine panics) are as many as \<open>sem\<close> has elements and at most \<open>W\<close>;
  those with a lookup in flight are among them; and a lookup can only be done by a
  goroutine that holds a permit.
\<close>

theorem in_flight_at_most_W:
  assumes "run W m es (initSystem rows) = Some s"
  shows "inFlight s \<le> W
    \<and> length (filter holdsPermit (tasks s)) = sem s \<and> sem s \<le> W
    \<and> inFlight s \<le> length (filter holdsPermit (tasks s))
    \<and> (\<forall>i client s'. step W m (Lookup i client) s = Some s' \<longrightarrow> holdsPermit (tasks s ! i))"
proof -
  have pi: "permitsInv W s" using assms by (rule run_permitsInv)
  have le: "inFlight s \<le> length (filter holdsPermit (tasks s))"
    unfolding inFlight_def by (rule filter_le_filter) (simp add: holdsPermit_def)
  have lk: "\<forall>i client s'. step W m (Lookup i client) s = Some s' \<longrightarrow> holdsPermit (tasks s ! i)"
    by (auto dest!: step_Lookup simp: atPc_def holdsPermit_def)
  show ?thesis using pi le lk by (simp add: permitsInv_def)
qed

theorem in_flight_at_most_W_witness:
  "\<exists>s. run 1 MaxRetries [Add, Go, Add, Go, Acquire 0] (initSystem (initialRows dnisGap namesGap))
          = Some s
     \<and> inFlight s = 1 \<and> sem s = 1 \<and> length (tasks s) = 2
     \<and> step 1 MaxRetries (Acquire 1) s = None
     \<and> inFlight s \<le> 1"
proof -
  have "map_option (\<lambda>s. (inFlight s, sem s, length (tasks s), step 1 MaxRetries (Acquire 1) s = None))
          (run 1 MaxRetries [Add, Go, Add, Go, Acquire 0] (initSystem (initialRows dnisGap namesGap)))
      = Some (1, 1, 2, True)"
    by code_simp
  then obtain s where s:
    "run 1 MaxRetries [Add, Go, Add, Go, Acquire 0] (initSystem (initialRows dnisGap namesGap)) = Some s"
    "inFlight s = 1" "sem s = 1" "length (tasks s) = 2" "step 1 MaxRetries (Acquire 1) s = None"
    by auto
  from in_flight_at_most_W [OF s(1)] s show ?thesis by (intro exI [of _ s]) simp
qed

section \<open>Whether a batch completes\<close>

subsection \<open>Counting the events\<close>

lemma sum_list_update_task:
  "i < length xs \<Longrightarrow>
   sum_list (map f (xs[i := y])) + f (xs ! i) = sum_list (map f xs) + (f y :: nat)"
proof (induction xs arbitrary: i)
  case Nil
  then show ?case by simp
next
  case (Cons x xs)
  then show ?case by (cases i) auto
qed

lemma eventsLeft_update:
  assumes "atPc s i p" and "pcLeft (tpc t) < pcLeft p"
  shows "sum_list (map (\<lambda>t. pcLeft (tpc t)) ((tasks s)[i := t]))
      < sum_list (map (\<lambda>t. pcLeft (tpc t)) (tasks s))"
  using sum_list_update_task [of i "tasks s" "\<lambda>t. pcLeft (tpc t)" t] assms
  by (simp add: atPc_def)

lemma eventsLeft_tasks:
  assumes "\<not> exited s" and "producer s' = producer s" and "exited s' = exited s"
    and "sum_list (map (\<lambda>t. pcLeft (tpc t)) (tasks s'))
       < sum_list (map (\<lambda>t. pcLeft (tpc t)) (tasks s))"
  shows "eventsLeft s' < eventsLeft s"
  using assms by (simp add: eventsLeft_def)

lemma eventsLeft_step:
  assumes "step W m e s = Some s'"
  shows "eventsLeft s' < eventsLeft s"
proof (cases e)
  case Add
  then obtain row rest where "producer s = Ranging (row # rest)" "\<not> exited s"
    "s' = s\<lparr>producer := Launching row rest, wg := wg s + 1\<rparr>"
    using assms step_Add by blast
  then show ?thesis by (simp add: eventsLeft_def)
next
  case Go
  then obtain row rest where "producer s = Launching row rest" "\<not> exited s"
    "s' = s\<lparr>producer := Ranging rest,
           tasks := tasks s @ [\<lparr>trow = row, tpc = Spawned, panicking = False\<rparr>]\<rparr>"
    using assms step_Go by blast
  then show ?thesis by (simp add: eventsLeft_def)
next
  case Wait
  then have "producer s = Ranging []" "\<not> exited s" "s' = s\<lparr>producer := Closing\<rparr>"
    using assms step_Wait by blast+
  then show ?thesis by (simp add: eventsLeft_def)
next
  case Close
  then have "producer s = Closing" "\<not> exited s"
    "s' = s\<lparr>producer := Returned, closed := True\<rparr>"
    using assms step_Close by blast+
  then show ?thesis by (simp add: eventsLeft_def)
next
  case (Acquire i)
  then have en: "atPc s i Spawned" and ne: "\<not> exited s"
    and s': "s' = s\<lparr>tasks := setPc s i Holding, sem := sem s + 1\<rparr>"
    using assms step_Acquire by blast+
  show ?thesis using ne
    by (rule eventsLeft_tasks) (simp_all add: s' setPc_def eventsLeft_update [OF en])
next
  case (Lookup i client)
  then have en: "atPc s i Holding" and ne: "\<not> exited s"
    and r: "case processRow m client (trow (tasks s ! i)) of
          None \<Rightarrow> s' = s\<lparr>tasks := panicAt s i Releasing\<rparr>
        | Some r \<Rightarrow> s' = s\<lparr>tasks := (tasks s)[i := (tasks s ! i)\<lparr>trow := r, tpc := Sending\<rparr>]\<rparr>"
    using assms step_Lookup by blast+
  show ?thesis
  proof (cases "processRow m client (trow (tasks s ! i))")
    case None
    then have s': "s' = s\<lparr>tasks := panicAt s i Releasing\<rparr>" using r by simp
    show ?thesis using ne
      by (rule eventsLeft_tasks) (simp_all add: s' panicAt_def eventsLeft_update [OF en])
  next
    case (Some row)
    then have s': "s' = s\<lparr>tasks := (tasks s)[i := (tasks s ! i)\<lparr>trow := row, tpc := Sending\<rparr>]\<rparr>"
      using r by simp
    show ?thesis using ne
      by (rule eventsLeft_tasks) (simp_all add: s' eventsLeft_update [OF en])
  qed
next
  case (Send i)
  then have en: "atPc s i Sending" and ne: "\<not> exited s"
    and r: "if closed s then s' = s\<lparr>tasks := panicAt s i Releasing\<rparr>
        else s' = s\<lparr>tasks := setPc s i Releasing,
                    delivered := delivered s @ [trow (tasks s ! i)]\<rparr>"
    using assms step_Send by blast+
  show ?thesis
  proof (cases "closed s")
    case True
    then have s': "s' = s\<lparr>tasks := panicAt s i Releasing\<rparr>" using r by simp
    show ?thesis using ne
      by (rule eventsLeft_tasks) (simp_all add: s' panicAt_def eventsLeft_update [OF en])
  next
    case False
    then have s': "s' = s\<lparr>tasks := setPc s i Releasing,
        delivered := delivered s @ [trow (tasks s ! i)]\<rparr>"
      using r by simp
    show ?thesis using ne
      by (rule eventsLeft_tasks) (simp_all add: s' setPc_def eventsLeft_update [OF en])
  qed
next
  case (Release i)
  then have en: "atPc s i Releasing" and ne: "\<not> exited s"
    and s': "s' = s\<lparr>tasks := setPc s i Finishing, sem := sem s - 1\<rparr>"
    using assms step_Release by blast+
  show ?thesis using ne
    by (rule eventsLeft_tasks) (simp_all add: s' setPc_def eventsLeft_update [OF en])
next
  case (Done i)
  then have en: "atPc s i Finishing" and ne: "\<not> exited s"
    and r: "if wg s = 0 then s' = s\<lparr>tasks := panicAt s i Ended\<rparr>
        else s' = s\<lparr>tasks := setPc s i Ended, wg := wg s - 1\<rparr>"
    using assms step_Done by blast+
  show ?thesis
  proof (cases "wg s = 0")
    case True
    then have s': "s' = s\<lparr>tasks := panicAt s i Ended\<rparr>" using r by simp
    show ?thesis using ne
      by (rule eventsLeft_tasks) (simp_all add: s' panicAt_def eventsLeft_update [OF en])
  next
    case False
    then have s': "s' = s\<lparr>tasks := setPc s i Ended, wg := wg s - 1\<rparr>" using r by simp
    show ?thesis using ne
      by (rule eventsLeft_tasks) (simp_all add: s' setPc_def eventsLeft_update [OF en])
  qed
next
  case (Exit i)
  then have "\<not> exited s" "s' = s\<lparr>exited := True\<rparr>" using assms step_Exit by blast+
  then show ?thesis by (simp add: eventsLeft_def)
qed

lemma run_length:
  "run W m es s = Some s' \<Longrightarrow> length es + eventsLeft s' \<le> eventsLeft s"
proof (induction es arbitrary: s)
  case Nil
  then show ?case by simp
next
  case (Cons e es)
  then obtain s1 where s1: "step W m e s = Some s1" "run W m es s1 = Some s'"
    by (auto split: option.splits)
  have "length es + eventsLeft s' \<le> eventsLeft s1" using s1(2) by (rule Cons.IH)
  moreover have "eventsLeft s1 < eventsLeft s" using s1(1) by (rule eventsLeft_step)
  ultimately show ?case by simp
qed

lemma eventsLeft_init: "eventsLeft (initSystem rows) = 7 * length rows + 3"
  by (simp add: eventsLeft_def initSystem_def)

lemma eventsLeft_running: "\<not> exited s \<Longrightarrow> 0 < eventsLeft s"
  by (simp add: eventsLeft_def)

subsection \<open>What an event does to the goroutines\<close>

lemma step_tasks [consumes 2, case_names same go pc panic answer]:
  assumes "barrierInv s" and "step W m e s = Some s'"
  obtains
    (same) "tasks s' = tasks s" "unlaunched (producer s') = unlaunched (producer s)"
  | (go) row where "unlaunched (producer s) = row # unlaunched (producer s')"
      "tasks s' = tasks s @ [\<lparr>trow = row, tpc = Spawned, panicking = False\<rparr>]"
  | (pc) i q where "i < length (tasks s)"
      "tasks s' = (tasks s)[i := (tasks s ! i)\<lparr>tpc := q\<rparr>]"
      "unlaunched (producer s') = unlaunched (producer s)"
      "(tpc (tasks s ! i) = Spawned \<and> q = Holding)
       \<or> (tpc (tasks s ! i) \<notin> {Spawned, Holding} \<and> q \<notin> {Spawned, Holding})"
  | (panic) i client where "i < length (tasks s)" "tpc (tasks s ! i) = Holding"
      "processRow m client (trow (tasks s ! i)) = None"
      "tasks s' = (tasks s)[i := (tasks s ! i)\<lparr>tpc := Releasing, panicking := True\<rparr>]"
      "unlaunched (producer s') = unlaunched (producer s)"
  | (answer) i client r where "i < length (tasks s)" "tpc (tasks s ! i) = Holding"
      "\<not> panicking (tasks s ! i)" "processRow m client (trow (tasks s ! i)) = Some r"
      "tasks s' = (tasks s)[i := (tasks s ! i)\<lparr>trow := r, tpc := Sending\<rparr>]"
      "unlaunched (producer s') = unlaunched (producer s)"
proof (cases e)
  case Add
  then obtain row rest where "producer s = Ranging (row # rest)"
    "s' = s\<lparr>producer := Launching row rest, wg := wg s + 1\<rparr>"
    using assms(2) step_Add by blast
  then show ?thesis by (intro same) simp_all
next
  case Go
  then obtain row rest where "producer s = Launching row rest"
    "s' = s\<lparr>producer := Ranging rest,
           tasks := tasks s @ [\<lparr>trow = row, tpc = Spawned, panicking = False\<rparr>]\<rparr>"
    using assms(2) step_Go by blast
  then show ?thesis by (intro go [of row]) simp_all
next
  case Wait
  then have "producer s = Ranging []" "s' = s\<lparr>producer := Closing\<rparr>"
    using assms(2) step_Wait by blast+
  then show ?thesis by (intro same) simp_all
next
  case Close
  then have "producer s = Closing" "s' = s\<lparr>producer := Returned, closed := True\<rparr>"
    using assms(2) step_Close by blast+
  then show ?thesis by (intro same) simp_all
next
  case (Acquire i)
  then have "atPc s i Spawned" "s' = s\<lparr>tasks := setPc s i Holding, sem := sem s + 1\<rparr>"
    using assms(2) step_Acquire by blast+
  then show ?thesis by (intro pc [of i Holding]) (simp_all add: atPc_def setPc_def)
next
  case (Lookup i client)
  then have en: "atPc s i Holding" "\<not> panicking (tasks s ! i)"
    and r: "case processRow m client (trow (tasks s ! i)) of
          None \<Rightarrow> s' = s\<lparr>tasks := panicAt s i Releasing\<rparr>
        | Some r \<Rightarrow> s' = s\<lparr>tasks := (tasks s)[i := (tasks s ! i)\<lparr>trow := r, tpc := Sending\<rparr>]\<rparr>"
    using step_Lookup_calm [OF assms(1)] assms(2) by blast+
  show ?thesis
  proof (cases "processRow m client (trow (tasks s ! i))")
    case None
    then have "s' = s\<lparr>tasks := panicAt s i Releasing\<rparr>" using r by simp
    then show ?thesis using en None
      by (intro panic [of i client]) (simp_all add: atPc_def panicAt_def)
  next
    case (Some row)
    then have "s' = s\<lparr>tasks := (tasks s)[i := (tasks s ! i)\<lparr>trow := row, tpc := Sending\<rparr>]\<rparr>"
      using r by simp
    then show ?thesis using en Some
      by (intro answer [of i client row]) (simp_all add: atPc_def)
  qed
next
  case (Send i)
  then have "atPc s i Sending"
    "s' = s\<lparr>tasks := setPc s i Releasing, delivered := delivered s @ [trow (tasks s ! i)]\<rparr>"
    using step_Send_open [OF assms(1)] assms(2) by blast+
  then show ?thesis by (intro pc [of i Releasing]) (simp_all add: atPc_def setPc_def)
next
  case (Release i)
  then have "atPc s i Releasing" "s' = s\<lparr>tasks := setPc s i Finishing, sem := sem s - 1\<rparr>"
    using assms(2) step_Release by blast+
  then show ?thesis by (intro pc [of i Finishing]) (simp_all add: atPc_def setPc_def)
next
  case (Done i)
  then have "atPc s i Finishing" "s' = s\<lparr>tasks := setPc s i Ended, wg := wg s - 1\<rparr>"
    using step_Done_counted [OF assms(1)] assms(2) by blast+
  then show ?thesis by (intro pc [of i Ended]) (simp_all add: atPc_def setPc_def)
next
  case (Exit i)
  then have "s' = s\<lparr>exited := True\<rparr>" using assms(2) step_Exit by blast
  then show ?thesis by (intro same) simp_all
qed

lemma step_exited:
  assumes "step W m e s = Some s'" and "exited s'"
  shows "\<exists>i < length (tasks s). panicking (tasks s ! i)"
proof (cases e)
  case Add
  then show ?thesis using assms step_Add [of W m s s'] by auto
next
  case Go
  then show ?thesis using assms step_Go [of W m s s'] by auto
next
  case Wait
  then show ?thesis using assms step_Wait [of W m s s'] by auto
next
  case Close
  then show ?thesis using assms step_Close [of W m s s'] by auto
next
  case (Acquire i)
  then show ?thesis using assms step_Acquire [of W m i s s'] by auto
next
  case (Lookup i client)
  then show ?thesis using assms step_Lookup [of W m i client s s']
    by (auto split: option.splits)
next
  case (Send i)
  then show ?thesis using assms step_Send [of W m i s s'] by (auto split: if_splits)
next
  case (Release i)
  then show ?thesis using assms step_Release [of W m i s s'] by auto
next
  case (Done i)
  then show ?thesis using assms step_Done [of W m i s s'] by (auto split: if_splits)
next
  case (Exit i)
  then show ?thesis using assms step_Exit [of W m i s s'] by (auto simp: atPc_def)
qed

subsection \<open>The identifiers\<close>

lemma processRow_DNI: "processRow m client r = Some r' \<Longrightarrow> DNI r' = DNI r"
  using processRow_outcome [of m client r r'] by (auto simp: compareNames_kept)

lemma dnisInv_init: "dnisInv rows (initSystem rows)"
  by (simp add: dnisInv_def initSystem_def)

lemma dnis_update:
  assumes "dnisInv rows s" and "i < length (tasks s)"
    and "DNI (trow t) = DNI (trow (tasks s ! i))"
    and "tasks s' = (tasks s)[i := t]"
    and "unlaunched (producer s') = unlaunched (producer s)"
  shows "dnisInv rows s'"
proof -
  have "map (\<lambda>t. DNI (trow t)) ((tasks s)[i := t]) = map (\<lambda>t. DNI (trow t)) (tasks s)"
    using assms(2,3) by (intro map_update_same) simp_all
  then show ?thesis using assms(1,4,5) by (simp add: dnisInv_def)
qed

lemma dnisInv_step:
  assumes "barrierInv s" and "dnisInv rows s" and "step W m e s = Some s'"
  shows "dnisInv rows s'"
  using assms(1,3)
proof (cases rule: step_tasks)
  case same
  then show ?thesis using assms(2) by (simp add: dnisInv_def)
next
  case (go row)
  then show ?thesis using assms(2) by (simp add: dnisInv_def)
next
  case (pc i q)
  show ?thesis using assms(2) pc(1) _ pc(2,3) by (rule dnis_update) simp
next
  case (panic i client)
  show ?thesis using assms(2) panic(1) _ panic(4,5) by (rule dnis_update) simp
next
  case (answer i client r)
  show ?thesis using assms(2) answer(1) _ answer(5,6)
    by (rule dnis_update) (simp add: processRow_DNI [OF answer(4)])
qed

lemma task_dni_in_rows:
  assumes "dnisInv rows s" and "i < length (tasks s)"
  shows "DNI (trow (tasks s ! i)) \<in> set (map DNI rows)"
proof -
  have "DNI (trow (tasks s ! i)) \<in> set (map (\<lambda>t. DNI (trow t)) (tasks s))"
    using assms(2) by (auto simp: in_set_conv_nth intro!: exI [of _ i])
  then have "DNI (trow (tasks s ! i))
      \<in> set (map (\<lambda>t. DNI (trow t)) (tasks s) @ map DNI (unlaunched (producer s)))"
    by simp
  then show ?thesis using assms(1) by (simp only: dnisInv_def)
qed

subsection \<open>No panic when every request can be built\<close>

lemma calmInv_init: "calmInv (initSystem rows)"
  by (simp add: calmInv_def initSystem_def)

lemma calmInv_step:
  assumes "barrierInv s" and "dnisInv rows s" and "list_all (\<lambda>r. requestable (DNI r)) rows"
    and "calmInv s" and "step W m e s = Some s'"
  shows "calmInv s'"
proof -
  have calm: "list_all (\<lambda>t. \<not> panicking t) (tasks s)"
    using assms(4) by (simp add: calmInv_def)
  have "\<not> (\<exists>i < length (tasks s). panicking (tasks s ! i))"
    using calm by (simp add: list_all_length)
  then have ne: "\<not> exited s'" using step_exited [OF assms(5)] by blast
  have "list_all (\<lambda>t. \<not> panicking t) (tasks s')"
    using assms(1,5)
  proof (cases rule: step_tasks)
    case same
    then show ?thesis using calm by simp
  next
    case (go row)
    then show ?thesis using calm by simp
  next
    case (pc i q)
    have "\<not> panicking ((tasks s ! i)\<lparr>tpc := q\<rparr>)"
      using list_all_nth [OF calm pc(1)] by simp
    then show ?thesis unfolding pc(2) using calm by (intro list_all_update)
  next
    case (panic i client)
    have "DNI (trow (tasks s ! i)) \<in> set (map DNI rows)"
      using assms(2) panic(1) by (rule task_dni_in_rows)
    then have "requestable (DNI (trow (tasks s ! i)))"
      using assms(3) by (auto simp: list_all_iff)
    then obtain row where "processRow m client (trow (tasks s ! i)) = Some row"
      using processRow_total by blast
    then show ?thesis using panic(3) by simp
  next
    case (answer i client r)
    have "\<not> panicking ((tasks s ! i)\<lparr>trow := r, tpc := Sending\<rparr>)"
      using answer(3) by simp
    then show ?thesis unfolding answer(5) using calm by (intro list_all_update)
  qed
  then show ?thesis using ne by (simp add: calmInv_def)
qed

lemma run_calm:
  assumes "list_all (\<lambda>r. requestable (DNI r)) rows" and "run W m es (initSystem rows) = Some s"
  shows "calmInv s"
proof -
  let ?P = "\<lambda>s. barrierInv s \<and> dnisInv rows s \<and> calmInv s"
  have "?P s"
  proof (rule run_invariant [of ?P W m "initSystem rows" es s])
    fix e s s'
    assume "?P s" and "step W m e s = Some s'"
    then show "?P s'"
      using barrierInv_step dnisInv_step calmInv_step [OF _ _ assms(1)] by blast
  next
    show "?P (initSystem rows)"
      using barrierInv_init dnisInv_init calmInv_init by blast
  next
    show "run W m es (initSystem rows) = Some s" by (rule assms(2))
  qed
  then show ?thesis by simp
qed

lemma run_dnisInv:
  assumes "run W m es (initSystem rows) = Some s"
  shows "dnisInv rows s"
proof -
  let ?P = "\<lambda>s. barrierInv s \<and> dnisInv rows s"
  have "?P s"
  proof (rule run_invariant [of ?P W m "initSystem rows" es s])
    fix e s s'
    assume "?P s" and "step W m e s = Some s'"
    then show "?P s'" using barrierInv_step dnisInv_step by blast
  next
    show "?P (initSystem rows)" using barrierInv_init dnisInv_init by blast
  next
    show "run W m es (initSystem rows) = Some s" by (rule assms)
  qed
  then show ?thesis by simp
qed

subsection \<open>Some event is enabled until the channel is closed\<close>

lemma holder_moves:
  assumes "permitsInv W s" and "\<not> exited s" and "i < length (tasks s)"
    and "holdsPermit (tasks s ! i)"
  shows "\<exists>e s'. step W m e s = Some s'"
proof -
  consider (h) "tpc (tasks s ! i) = Holding" | (c) "tpc (tasks s ! i) = Sending"
    | (t) "tpc (tasks s ! i) = Releasing"
    using assms(4) by (auto simp: holdsPermit_def)
  then show ?thesis
  proof cases
    case h
    then have "step W m (Lookup i alwaysDown) s \<noteq> None"
      using assms(2,3) by (simp add: step.simps atPc_def split: option.splits)
    then show ?thesis by blast
  next
    case c
    then have "step W m (Send i) s \<noteq> None"
      using assms(2,3) by (simp add: step.simps atPc_def)
    then show ?thesis by blast
  next
    case t
    have "0 < length (filter holdsPermit (tasks s))"
      using filter_nth_pos [of i "tasks s" holdsPermit] assms(3,4) by simp
    then have "sem s \<noteq> 0" using assms(1) by (simp add: permitsInv_def)
    then have "step W m (Release i) s \<noteq> None"
      using t assms(2,3) by (simp add: step.simps atPc_def)
    then show ?thesis by blast
  qed
qed

lemma some_holder:
  assumes "0 < length (filter P xs)"
  shows "\<exists>i<length xs. P (xs ! i)"
proof -
  obtain x where "x \<in> set xs" "P x"
    using assms by (auto simp: filter_empty_conv)
  then show ?thesis by (auto simp: in_set_conv_nth)
qed

lemma progress:
  assumes "barrierInv s" and "permitsInv W s" and "\<not> exited s" and "\<not> closed s"
    and "0 < W"
  shows "\<exists>e s'. step W m e s = Some s'"
proof (cases "producer s")
  case (Ranging rows)
  show ?thesis
  proof (cases rows)
    case (Cons row rest)
    then have "step W m Add s \<noteq> None"
      using Ranging assms(3) by (simp add: step.simps)
    then show ?thesis by blast
  next
    case Nil
    show ?thesis
    proof (cases "\<exists>i<length (tasks s). tpc (tasks s ! i) \<noteq> Ended")
      case False
      then have "filter (\<lambda>t. tpc t \<noteq> Ended) (tasks s) = []"
        by (auto simp: filter_empty_conv in_set_conv_nth)
      then have "wg s = 0" using assms(1) Ranging by (simp add: barrierInv_def)
      then have "step W m Wait s \<noteq> None"
        using Ranging Nil assms(3) by (simp add: step.simps)
      then show ?thesis by blast
    next
      case True
      then obtain i where i: "i < length (tasks s)" "tpc (tasks s ! i) \<noteq> Ended" by blast
      show ?thesis
      proof (cases "tpc (tasks s ! i)")
        case Spawned
        show ?thesis
        proof (cases "sem s < W")
          case True
          then have "step W m (Acquire i) s \<noteq> None"
            using Spawned i assms(3) by (simp add: step.simps atPc_def)
          then show ?thesis by blast
        next
          case False
          then have "sem s = W" using assms(2) by (simp add: permitsInv_def)
          then have "length (filter holdsPermit (tasks s)) = W"
            using assms(2) by (simp add: permitsInv_def)
          then have "0 < length (filter holdsPermit (tasks s))"
            using assms(5) by linarith
          then obtain j where j: "j < length (tasks s)" "holdsPermit (tasks s ! j)"
            using some_holder [of holdsPermit "tasks s"] by auto
          show ?thesis using assms(2,3) j by (rule holder_moves)
        qed
      next
        case Holding
        then have "holdsPermit (tasks s ! i)" by (simp add: holdsPermit_def)
        with assms(2,3) i(1) show ?thesis by (rule holder_moves)
      next
        case Sending
        then have "holdsPermit (tasks s ! i)" by (simp add: holdsPermit_def)
        with assms(2,3) i(1) show ?thesis by (rule holder_moves)
      next
        case Releasing
        then have "holdsPermit (tasks s ! i)" by (simp add: holdsPermit_def)
        with assms(2,3) i(1) show ?thesis by (rule holder_moves)
      next
        case Finishing
        then have "step W m (Done i) s \<noteq> None"
          using i assms(3) by (simp add: step.simps atPc_def)
        then show ?thesis by blast
      next
        case Ended
        then show ?thesis using i by simp
      qed
    qed
  qed
next
  case (Launching row rest)
  then have "step W m Go s \<noteq> None"
    using assms(3) by (simp add: step.simps)
  then show ?thesis by blast
next
  case Closing
  then have "step W m Close s \<noteq> None"
    using assms(3) by (simp add: step.simps)
  then show ?thesis by blast
next
  case Returned
  then show ?thesis using assms(1,4) by (simp add: barrierInv_def)
qed

subsection \<open>A goroutine that cannot build its request\<close>

lemma stuckInv_init: "stuckInv (initSystem rows)"
  by (simp add: stuckInv_def initSystem_def)

lemma stuckInv_step:
  assumes "0 < m" and "barrierInv s" and "stuckInv s" and "step W m e s = Some s'"
  shows "stuckInv s'"
proof -
  have all: "list_all beforeLookup (tasks s)" using assms(3) by (simp add: stuckInv_def)
  have "list_all beforeLookup (tasks s')"
    using assms(2,4)
  proof (cases rule: step_tasks)
    case same
    then show ?thesis using all by simp
  next
    case (go row)
    then show ?thesis using all by (simp add: beforeLookup_def untouched_def)
  next
    case (pc i q)
    have "beforeLookup (tasks s ! i)" using all pc(1) by (rule list_all_nth)
    then have "beforeLookup ((tasks s ! i)\<lparr>tpc := q\<rparr>)"
      using pc(4) by (auto simp: beforeLookup_def untouched_def)
    then show ?thesis unfolding pc(2) using all by (intro list_all_update)
  next
    case (panic i client)
    have "beforeLookup ((tasks s ! i)\<lparr>tpc := Releasing, panicking := True\<rparr>)"
      by (simp add: beforeLookup_def untouched_def)
    then show ?thesis unfolding panic(4) using all by (intro list_all_update)
  next
    case (answer i client r)
    have "processRow m client (trow (tasks s ! i)) \<noteq> None" using answer(4) by simp
    then have "requestable (DNI (trow (tasks s ! i)))"
      using assms(1) by (simp add: processRow_None_iff)
    then have "requestable (DNI r)" using processRow_DNI [OF answer(4)] by simp
    then have "beforeLookup ((tasks s ! i)\<lparr>trow := r, tpc := Sending\<rparr>)"
      by (simp add: beforeLookup_def)
    then show ?thesis unfolding answer(5) using all by (intro list_all_update)
  qed
  then show ?thesis by (simp add: stuckInv_def)
qed

lemma run_stuckInv:
  assumes "0 < m" and "run W m es (initSystem rows) = Some s"
  shows "stuckInv s"
proof -
  let ?P = "\<lambda>s. barrierInv s \<and> stuckInv s"
  have "?P s"
  proof (rule run_invariant [of ?P W m "initSystem rows" es s])
    fix e s s'
    assume "?P s" and "step W m e s = Some s'"
    then show "?P s'" using barrierInv_step stuckInv_step [OF assms(1)] by blast
  next
    show "?P (initSystem rows)" using barrierInv_init stuckInv_init by blast
  next
    show "run W m es (initSystem rows) = Some s" by (rule assms(2))
  qed
  then show ?thesis by simp
qed

lemma delivered_requestable:
  assumes "rowsInv rows s" and "stuckInv s" and "d \<in> set (delivered s)"
  shows "requestable (DNI d)"
proof -
  have "d \<in> set_mset (mset (delivered s))" using assms(3) by (simp only: set_mset_mset)
  moreover have "mset (delivered s) = mset (map trow (filter hasSent (tasks s)))"
    using assms(1) by (simp only: rowsInv_def)
  ultimately have "d \<in> set_mset (mset (map trow (filter hasSent (tasks s))))"
    by (simp only:)
  then have "d \<in> set (map trow (filter hasSent (tasks s)))"
    by (simp only: set_mset_mset)
  then obtain t where t: "t \<in> set (tasks s)" "hasSent t" "trow t = d" by auto
  then have "beforeLookup t" using assms(2) by (simp add: stuckInv_def list_all_iff)
  then show ?thesis
    using t by (auto simp: beforeLookup_def untouched_def hasSent_def pastSend_def)
qed

lemma delivered_fewer:
  assumes "rowsInv rows s" and "dnisInv rows s" and "stuckInv s"
    and "r \<in> set rows" and "\<not> requestable (DNI r)"
  shows "length (delivered s) < length rows"
proof -
  let ?ok = "\<lambda>t. requestable (DNI (trow t))"
  have "mset (delivered s) = mset (map trow (filter hasSent (tasks s)))"
    using assms(1) by (simp only: rowsInv_def)
  then have "length (delivered s) = length (map trow (filter hasSent (tasks s)))"
    by (rule mset_eq_length)
  then have a: "length (delivered s) = length (filter hasSent (tasks s))" by simp
  have "filter hasSent (tasks s) = filter (\<lambda>t. hasSent t \<and> ?ok t) (tasks s)"
  proof (rule filter_cong [OF refl])
    fix t assume "t \<in> set (tasks s)"
    then have "beforeLookup t" using assms(3) by (simp add: stuckInv_def list_all_iff)
    then show "hasSent t = (hasSent t \<and> ?ok t)"
      by (auto simp: beforeLookup_def untouched_def hasSent_def pastSend_def)
  qed
  then have b: "length (filter hasSent (tasks s)) \<le> length (filter ?ok (tasks s))"
    using filter_le_filter [of "\<lambda>t. hasSent t \<and> ?ok t" ?ok "tasks s"] by simp
  have "length (filter ?ok (tasks s))
      = length (filter requestable (map (\<lambda>t. DNI (trow t)) (tasks s)))"
    by (simp add: filter_map comp_def)
  also have "\<dots> \<le> length (filter requestable
      (map (\<lambda>t. DNI (trow t)) (tasks s) @ map DNI (unlaunched (producer s))))"
    by simp
  also have "\<dots> = length (filter requestable (map DNI rows))"
    using assms(2) by (simp only: dnisInv_def)
  also have "\<dots> < length (map DNI rows)"
    using assms(4,5) by (intro length_filter_less [of "DNI r"]) simp_all
  finally have "length (filter ?ok (tasks s)) < length rows" by simp
  then show ?thesis using a b by linarith
qed

subsection \<open>The two kinds of batch\<close>

text \<open>
  When a request can be built for every identifier and \<open>sem\<close> has room for at least one
  permit, no goroutine panics and the program does not end early; a run has at most
  seven events for each row and two more; every run that has not closed the channel has
  an enabled event; and when the channel is closed every row has its goroutine, every
  goroutine has run to its end with a row that is not pending, every \<open>ID\<close> has been
  delivered exactly once and no event is enabled any more. Whatever the schedule and the
  registry, the batch completes.
\<close>

theorem requestable_batch_completes:
  fixes rawDnis rawNombres :: string
  assumes "0 < W"
    and "list_all (\<lambda>r. requestable (DNI r)) (initialRows rawDnis rawNombres)"
    and "run W m es (initSystem (initialRows rawDnis rawNombres)) = Some s"
  shows "\<not> exited s \<and> list_all (\<lambda>t. \<not> panicking t) (tasks s)
    \<and> length es \<le> 7 * length (initialRows rawDnis rawNombres) + 2
    \<and> (\<not> closed s \<longrightarrow> (\<exists>e s'. step W m e s = Some s'))
    \<and> (closed s \<longrightarrow>
          length (tasks s) = length (initialRows rawDnis rawNombres)
          \<and> (\<forall>t \<in> set (tasks s). tpc t = Ended \<and> statusOf (trow t) \<noteq> Pending)
          \<and> mset (map ID (delivered s)) = mset (map ID (initialRows rawDnis rawNombres))
          \<and> (\<forall>e. step W m e s = None))"
proof -
  let ?rows = "initialRows rawDnis rawNombres"
  have ci: "calmInv s" using assms(2,3) by (rule run_calm)
  then have ne: "\<not> exited s" and calm: "list_all (\<lambda>t. \<not> panicking t) (tasks s)"
    by (simp_all add: calmInv_def)
  have bi: "barrierInv s" using assms(3) by (rule run_barrierInv)
  have pi: "permitsInv W s" using assms(3) by (rule run_permitsInv)
  have ri: "rowsInv ?rows s" using assms(3) by (rule run_rowsInv)
  have si: "shapeInv s" using initialRows_all_fresh assms(3) by (rule run_shapeInv)
  have "length es + eventsLeft s \<le> 7 * length ?rows + 3"
    using run_length [OF assms(3)] by (simp add: eventsLeft_init)
  then have len: "length es \<le> 7 * length ?rows + 2"
    using eventsLeft_running [OF ne] by linarith
  have pr: "\<not> closed s \<longrightarrow> (\<exists>e s'. step W m e s = Some s')"
    using progress [OF bi pi ne _ assms(1)] by blast
  have cl: "length (tasks s) = length ?rows
      \<and> (\<forall>t \<in> set (tasks s). tpc t = Ended \<and> statusOf (trow t) \<noteq> Pending)
      \<and> mset (map ID (delivered s)) = mset (map ID ?rows)
      \<and> (\<forall>e. step W m e s = None)" if c: "closed s"
  proof -
    have fin: "\<forall>t \<in> set (tasks s). tpc t = Ended" using closed_all_ended(2) [OF bi c] .
    have tk: "\<forall>t \<in> set (tasks s). tpc t = Ended \<and> statusOf (trow t) \<noteq> Pending"
    proof
      fix t assume t: "t \<in> set (tasks s)"
      then have "taskShape t" using si by (simp add: shapeInv_def list_all_iff)
      moreover have "\<not> untouched t"
        using fin calm t by (simp add: untouched_def list_all_iff)
      ultimately have "settled (trow t)" by (simp add: taskShape_def)
      then show "tpc t = Ended \<and> statusOf (trow t) \<noteq> Pending"
        using fin t by (simp add: settled_def statusOf_def)
    qed
    have quiet: "\<forall>e. step W m e s = None"
    proof (rule ccontr)
      assume "\<not> (\<forall>e. step W m e s = None)"
      then obtain e s' where st: "step W m e s = Some s'" by auto
      then have "exited s'" using closed_only_exit [OF bi c] by fastforce
      then have "\<exists>i < length (tasks s). panicking (tasks s ! i)"
        using st by (intro step_exited)
      then show False using calm by (auto simp: list_all_length)
    qed
    show ?thesis
      using delivered_ids_closed [OF ri bi c calm] tk quiet by simp
  qed
  show ?thesis using ne calm len pr cl by blast
qed

text \<open>
  When the batch holds an identifier that no request can be built for, no run delivers
  the row of such an identifier: in every state of every run the delivered rows are
  fewer than the rows of the batch, so their \<open>ID\<close>s are not all the \<open>ID\<close>s assigned,
  also when the channel is closed; and a run in which no event is enabled any more has
  ended the program from a panic.
\<close>

theorem unrequestable_identifier_is_never_delivered:
  assumes "0 < m" and "0 < W" and "r \<in> set rows" and "\<not> requestable (DNI r)"
    and "run W m es (initSystem rows) = Some s"
  shows "(\<forall>d \<in> set (delivered s). requestable (DNI d))
    \<and> length (delivered s) < length rows
    \<and> mset (map ID (delivered s)) \<noteq> mset (map ID rows)
    \<and> ((\<forall>e. step W m e s = None) \<longrightarrow> exited s)"
proof -
  have bi: "barrierInv s" using assms(5) by (rule run_barrierInv)
  have pi: "permitsInv W s" using assms(5) by (rule run_permitsInv)
  have ri: "rowsInv rows s" using assms(5) by (rule run_rowsInv)
  have di: "dnisInv rows s" using assms(5) by (rule run_dnisInv)
  have si: "stuckInv s" using assms(1,5) by (rule run_stuckInv)
  have dl: "\<forall>d \<in> set (delivered s). requestable (DNI d)"
    using delivered_requestable [OF ri si] by blast
  have fewer: "length (delivered s) < length rows"
    using ri di si assms(3,4) by (rule delivered_fewer)
  have neq: "mset (map ID (delivered s)) \<noteq> mset (map ID rows)"
  proof
    assume "mset (map ID (delivered s)) = mset (map ID rows)"
    then have "length (map ID (delivered s)) = length (map ID rows)" by (rule mset_eq_length)
    then show False using fewer by simp
  qed
  have st: "(\<forall>e. step W m e s = None) \<longrightarrow> exited s"
  proof (intro impI, rule ccontr)
    assume none: "\<forall>e. step W m e s = None" and ne: "\<not> exited s"
    show False
    proof (cases "closed s")
      case False
      then obtain e s' where "step W m e s = Some s'"
        using progress [OF bi pi ne _ assms(2)] by blast
      then show False using none by simp
    next
      case True
      have ret: "producer s = Returned" and fin: "\<forall>t \<in> set (tasks s). tpc t = Ended"
        using closed_all_ended [OF bi True] by simp_all
      have "map (\<lambda>t. DNI (trow t)) (tasks s) = map DNI rows"
        using di ret by (simp add: dnisInv_def)
      moreover have "DNI r \<in> set (map DNI rows)" using assms(3) by simp
      ultimately have "DNI r \<in> set (map (\<lambda>t. DNI (trow t)) (tasks s))" by simp
      then obtain t where t: "t \<in> set (tasks s)" "DNI (trow t) = DNI r" by auto
      then have "beforeLookup t" using si by (simp add: stuckInv_def list_all_iff)
      then have pn: "panicking t"
        using t fin assms(4) by (auto simp: beforeLookup_def untouched_def)
      obtain i where i: "i < length (tasks s)" "tasks s ! i = t"
        using t(1) by (auto simp: in_set_conv_nth)
      have "tpc (tasks s ! i) = Ended" using fin t(1) i by simp
      then have "step W m (Exit i) s \<noteq> None"
        using i pn ne by (simp add: step.simps atPc_def)
      then show False using none by simp
    qed
  qed
  show ?thesis using dl fewer neq st by blast
qed

text \<open>
  C4 on a batch the handler can receive. The second identifier line of \<open>dnisTab\<close>
  holds a tab between its digits; \<open>strings.TrimSpace\<close> leaves it there and
  \<open>http.NewRequest\<close> refuses the URL, so the goroutine of the second row panics in its
  lookup and runs its deferred calls. In the run \<open>scheduleCrash\<close> the program ends
  then: no row has been delivered, the first goroutine is left with its lookup in
  flight, the channel is not closed. In the run \<open>scheduleCloseOverPanic\<close> the first row
  is delivered before the panic, and the producer closes the channel before the program
  ends: at the close the \<open>ID\<close> 0 has been delivered and the \<open>ID\<close> 1 has not. Neither
  run delivers every \<open>ID\<close> assigned.
\<close>

theorem control_character_crashes_the_batch:
  "map DNI (initialRows dnisTab namesGap) = [''11111111'', ''12'' @ [tab] @ ''34'']
   \<and> map ID (initialRows dnisTab namesGap) = [0, 1]
   \<and> requestable ''11111111'' \<and> \<not> requestable (''12'' @ [tab] @ ''34'')
   \<and> map_option (\<lambda>s. (exited s, closed s, map ID (delivered s), map tpc (tasks s),
          map panicking (tasks s)))
        (handleConsultar dnisTab namesGap scheduleCrash)
      = Some (True, False, [], [Holding, Ended], [False, True])
   \<and> map_option (\<lambda>s. (closed s, map ID (delivered s)))
        (handleConsultar dnisTab namesGap scheduleCloseOverPanic)
      = Some (True, [0])"
  by code_simp

text \<open>
  C8 on the same batch. In the run \<open>scheduleCloseOverPanic\<close> the goroutine of the
  second row panics before the statement that clears \<open>IsPending\<close>; its deferred
  \<open>wg.Done()\<close> runs all the same and, the first goroutine having ended, brings the
  counter to zero, so \<open>wg.Wait()\<close> returns and the producer closes \<open>resultsChan\<close>.
  At the close both goroutines have ended, the row of the second is still pending and
  has not been sent, and the program has not ended yet; the end of the program is
  still to come.
\<close>

theorem channel_closes_over_a_panicked_goroutine:
  "map_option (\<lambda>s. (closed s, exited s, map tpc (tasks s), map panicking (tasks s),
          map (\<lambda>t. statusOf (trow t)) (tasks s), map statusOf (delivered s),
          step MaxWorkers MaxRetries (Exit 1) s \<noteq> None))
        (handleConsultar dnisTab namesGap scheduleCloseOverPanic)
      = Some (True, False, [Ended, Ended], [False, True], [Resolved, Pending], [Resolved],
              True)"
  by code_simp

end
